theory Spec2Isabelle
  imports Complex_Main "HOL-Library.Multiset"
begin

section \<open>Data model\<close>

text \<open>
  The evaluator of \<^verbatim>\<open>flurs/evaluator.py\<close> drives a pluggable recommender over a
  sequence of positive-feedback events. Feature and context vectors are opaque to the
  evaluator; scores and the feedback value are floats, idealised here as reals.
  The fields \<^verbatim>\<open>value\<close> and \<^verbatim>\<open>context\<close> of an event are called \<open>evalue\<close> and
  \<open>econtext\<close>, because both words are reserved in theory text.
\<close>

type_synonym vec = "real list"

record entity =
  index :: nat
  feature :: vec

record event =
  user :: entity
  item :: entity
  evalue :: real
  econtext :: vec

text \<open>
  Every call the evaluator makes on the recommender, and every insertion it performs on a
  user's observed set, is recorded in a history. Optional arguments are \<open>None\<close> on the
  plain call path. The last argument of \<open>Update\<close> is \<^verbatim>\<open>is_batch_train\<close>.
\<close>

datatype action =
    InitModel
  | AddUser nat "vec option"
  | AddItem nat "vec option"
  | UpdateUserFeature nat vec
  | UpdateItemFeature nat vec
  | Update nat nat real "vec option" bool
  | Recommend nat "nat list" "vec option"
  | ObservedAdd nat nat

text \<open>
  Modelled from the spec: the state of the recommender base class \<^verbatim>\<open>flurs.recommender\<close>,
  whose source is missing. Following sections 3 and 4.1 of the specification, the
  recommender keeps the registered users, each with its set of observed item indices
  (\<^verbatim>\<open>users[u]['observed']\<close>), the registered items, and the two counters \<^verbatim>\<open>n_user\<close> and
  \<^verbatim>\<open>n_item\<close>. The learnable parameters of a concrete algorithm are a function of the
  calls it has received, so the history \<open>log\<close> stands for them.
\<close>

record rec_state =
  n_user :: nat
  users :: "nat \<rightharpoonup> nat set"
  n_item :: nat
  items :: "nat set"
  log :: "action list"

text \<open>
  The ranking of a concrete algorithm: from the current recommender state, the user, the
  candidate list and the optional context to the ranked candidates and their scores.
\<close>

type_synonym recommend_fn = "rec_state \<Rightarrow> nat \<Rightarrow> nat list \<Rightarrow> vec option \<Rightarrow> nat list \<times> real list"

text \<open>
  The evaluator object. The attribute \<^verbatim>\<open>can_repeat\<close> is assigned by \<^verbatim>\<open>set_can_repeat\<close>
  only; \<open>None\<close> is the attribute that does not exist yet.
\<close>

record evaluator =
  rec :: rec_state
  is_feature_rec :: bool
  can_repeat :: "bool option"

datatype error = AttributeError | KeyError | IndexError

text \<open>A numpy float that is either a number or not-a-number.\<close>

datatype npfloat = Num real | NaN

section \<open>Recommender bookkeeping\<close>

definition emit :: "action \<Rightarrow> rec_state \<Rightarrow> rec_state" where
  "emit a r = r\<lparr>log := log r @ [a]\<rparr>"

text \<open>Modelled from the spec: \<^verbatim>\<open>init_model\<close> returns the model to its initial state.\<close>

definition init_model :: "rec_state \<Rightarrow> rec_state" where
  "init_model r = emit InitModel (r\<lparr>n_user := 0, users := Map.empty, n_item := 0, items := {}\<rparr>)"

text \<open>Modelled from the spec: the predicates over the currently registered entities.\<close>

definition is_new_user :: "rec_state \<Rightarrow> nat \<Rightarrow> bool" where
  "is_new_user r u = (users r u = None)"

definition is_new_item :: "rec_state \<Rightarrow> nat \<Rightarrow> bool" where
  "is_new_item r i = (i \<notin> items r)"

text \<open>
  Modelled from the spec: registration of a previously unseen entity. A new user starts
  with an empty observed set; each registration increments the matching counter.
\<close>

definition add_user :: "nat \<Rightarrow> vec option \<Rightarrow> rec_state \<Rightarrow> rec_state" where
  "add_user u c r = emit (AddUser u c) (r\<lparr>users := (users r)(u \<mapsto> {}), n_user := n_user r + 1\<rparr>)"

definition add_item :: "nat \<Rightarrow> vec option \<Rightarrow> rec_state \<Rightarrow> rec_state" where
  "add_item i f r = emit (AddItem i f) (r\<lparr>items := insert i (items r), n_item := n_item r + 1\<rparr>)"

text \<open>\<^verbatim>\<open>self.rec.users[u]['observed'].add(i)\<close>: a missing user is a \<^verbatim>\<open>KeyError\<close>.\<close>

definition observed_add :: "nat \<Rightarrow> nat \<Rightarrow> evaluator \<Rightarrow> error + evaluator" where
  "observed_add u i ev =
     (case users (rec ev) u of
        None \<Rightarrow> Inl KeyError
      | Some obs \<Rightarrow> Inr (ev\<lparr>rec := emit (ObservedAdd u i) ((rec ev)\<lparr>users := (users (rec ev))(u \<mapsto> insert i obs)\<rparr>)\<rparr>))"

section \<open>The evaluator\<close>

definition set_can_repeat :: "bool \<Rightarrow> evaluator \<Rightarrow> evaluator" where
  "set_can_repeat b ev = ev\<lparr>can_repeat := Some b\<rparr>"

text \<open>The constructor: stores the recommender and its capability, then resets the model.\<close>

definition new_evaluator :: "rec_state \<Rightarrow> bool \<Rightarrow> evaluator" where
  "new_evaluator r fr = \<lparr>rec = init_model r, is_feature_rec = fr, can_repeat = None\<rparr>"

definition validate_user :: "evaluator \<Rightarrow> event \<Rightarrow> evaluator" where
  "validate_user ev e =
     (if \<not> is_new_user (rec ev) (index (user e)) then ev
      else if is_feature_rec ev
        then ev\<lparr>rec := add_user (index (user e)) (Some (econtext e)) (rec ev)\<rparr>
        else ev\<lparr>rec := add_user (index (user e)) None (rec ev)\<rparr>)"

definition validate_item :: "evaluator \<Rightarrow> event \<Rightarrow> evaluator" where
  "validate_item ev e =
     (if \<not> is_new_item (rec ev) (index (item e)) then ev
      else if is_feature_rec ev
        then ev\<lparr>rec := add_item (index (item e)) (Some (feature (item e))) (rec ev)\<rparr>
        else ev\<lparr>rec := add_item (index (item e)) None (rec ev)\<rparr>)"

definition validate :: "evaluator \<Rightarrow> event \<Rightarrow> evaluator" where
  "validate ev e = validate_item (validate_user ev e) e"

text \<open>
  \<^verbatim>\<open>__update\<close>. On the feature-aware path the item features are refreshed under the index
  \<^verbatim>\<open>e.user.index\<close>, as the source has it.
\<close>

definition update :: "evaluator \<Rightarrow> event \<Rightarrow> bool \<Rightarrow> evaluator" where
  "update ev e is_batch_train =
     (if is_feature_rec ev
      then ev\<lparr>rec :=
        emit (Update (index (user e)) (index (item e)) (evalue e) (Some (econtext e)) is_batch_train)
          (emit (UpdateItemFeature (index (user e)) (feature (item e)))
            (emit (UpdateUserFeature (index (user e)) (feature (user e))) (rec ev)))\<rparr>
      else ev\<lparr>rec :=
        emit (Update (index (user e)) (index (item e)) (evalue e) None is_batch_train) (rec ev)\<rparr>)"

text \<open>
  \<^verbatim>\<open>__recommend\<close>: returns the new evaluator state with the ranked candidates and scores.
  The algorithm ranks from the state it has when \<^verbatim>\<open>recommend\<close> is entered.
\<close>

definition recommend :: "recommend_fn \<Rightarrow> evaluator \<Rightarrow> event \<Rightarrow> nat list \<Rightarrow> evaluator \<times> nat list \<times> real list" where
  "recommend R ev e target_i_indices =
     (if is_feature_rec ev
      then
        (let r = emit (UpdateItemFeature (index (item e)) (feature (item e)))
                   (emit (UpdateUserFeature (index (user e)) (feature (user e))) (rec ev))
         in (ev\<lparr>rec := emit (Recommend (index (user e)) target_i_indices (Some (econtext e))) r\<rparr>,
             R r (index (user e)) target_i_indices (Some (econtext e))))
      else
        (ev\<lparr>rec := emit (Recommend (index (user e)) target_i_indices None) (rec ev)\<rparr>,
         R (rec ev) (index (user e)) target_i_indices None))"

text \<open>
  The candidate set of one event, built on the set \<open>all_items\<close>: reading \<^verbatim>\<open>can_repeat\<close>
  fails when it was never assigned, and the observed set of an unregistered user is a
  \<^verbatim>\<open>KeyError\<close>. When repetition is excluded the user's observed items are removed and the
  true item is inserted.
\<close>

definition candidates :: "evaluator \<Rightarrow> event \<Rightarrow> nat set \<Rightarrow> error + nat set" where
  "candidates ev e all_items =
     (case can_repeat ev of
        None \<Rightarrow> Inl AttributeError
      | Some True \<Rightarrow> Inr all_items
      | Some False \<Rightarrow>
          (case users (rec ev) (index (user e)) of
             None \<Rightarrow> Inl KeyError
           | Some obs \<Rightarrow> Inr (insert (index (item e)) (all_items - obs))))"

text \<open>
  \<^verbatim>\<open>list(unobserved)\<close>: Python enumerates a set in the order of its hash table, which
  the language does not fix. The ascending order stands for it; the general theorems
  below use the elements and the length of the list only, and the example runs show the
  ascending order.
\<close>

definition target_list :: "nat set \<Rightarrow> nat list" where
  "target_list unobserved = sorted_list_of_set unobserved"

text \<open>\<^verbatim>\<open>np.where(recos == i)[0][0]\<close>: the first position of \<open>i\<close>, an \<^verbatim>\<open>IndexError\<close> if there is none.\<close>

fun np_where_first :: "nat list \<Rightarrow> nat \<Rightarrow> error + nat" where
  "np_where_first [] i = Inl IndexError"
| "np_where_first (x # xs) i =
     (if x = i then Inr 0
      else (case np_where_first xs i of Inl err \<Rightarrow> Inl err | Inr k \<Rightarrow> Inr (Suc k)))"

text \<open>
  One iteration of the generator \<^verbatim>\<open>evaluate\<close>, up to its \<^verbatim>\<open>yield\<close>. The two durations of
  the yielded tuple are wall-clock measurements and are left out; the result is
  \<open>(scores[0], rank)\<close>.
\<close>

definition evaluate_step :: "recommend_fn \<Rightarrow> evaluator \<Rightarrow> event \<Rightarrow> error + evaluator \<times> real \<times> nat" where
  "evaluate_step R ev e =
     (let v = validate ev e in
      case candidates v e {0..<n_item (rec v)} of
        Inl err \<Rightarrow> Inl err
      | Inr unobserved \<Rightarrow>
          (case recommend R v e (target_list unobserved) of
             (v1, recos, scores) \<Rightarrow>
               (case np_where_first recos (index (item e)) of
                  Inl err \<Rightarrow> Inl err
                | Inr rank \<Rightarrow>
                    (case observed_add (index (user e)) (index (item e)) v1 of
                       Inl err \<Rightarrow> Inl err
                     | Inr v2 \<Rightarrow>
                         (let v3 = update v2 e False in
                          case scores of
                            [] \<Rightarrow> Inl IndexError
                          | s # _ \<Rightarrow> Inr (v3, s, rank))))))"

text \<open>
  The generator run to exhaustion. The caller pulls one result at a time, and the body
  runs up to the next \<^verbatim>\<open>yield\<close> only: pulling \<open>k\<close> results is \<open>evaluate\<close> on the first
  \<open>k\<close> events.
\<close>

fun evaluate :: "recommend_fn \<Rightarrow> evaluator \<Rightarrow> event list \<Rightarrow> error + evaluator \<times> (real \<times> nat) list" where
  "evaluate R ev [] = Inr (ev, [])"
| "evaluate R ev (e # es) =
     (case evaluate_step R ev e of
        Inl err \<Rightarrow> Inl err
      | Inr (ev1, res) \<Rightarrow>
          (case evaluate R ev1 es of
             Inl err \<Rightarrow> Inl err
           | Inr (ev2, rs) \<Rightarrow> Inr (ev2, res # rs)))"

text \<open>
  \<^verbatim>\<open>pos / (len(recos) - 1) * 100\<close> on a numpy integer: a zero divisor gives not-a-number
  (\<open>pos\<close> is then zero too) and a warning, not an exception.
\<close>

definition percentile :: "nat \<Rightarrow> nat \<Rightarrow> npfloat" where
  "percentile pos len = (if int len - 1 = 0 then NaN else Num (real pos / real_of_int (int len - 1) * 100))"

fun np_sum :: "npfloat list \<Rightarrow> npfloat" where
  "np_sum [] = Num 0"
| "np_sum (p # ps) =
     (case p of NaN \<Rightarrow> NaN
      | Num a \<Rightarrow> (case np_sum ps of NaN \<Rightarrow> NaN | Num b \<Rightarrow> Num (a + b)))"

text \<open>\<^verbatim>\<open>np.mean\<close>: not-a-number on an empty array.\<close>

definition np_mean :: "npfloat list \<Rightarrow> npfloat" where
  "np_mean ps =
     (case np_sum ps of NaN \<Rightarrow> NaN
      | Num s \<Rightarrow> if ps = [] then NaN else Num (s / real (length ps)))"

text \<open>
  The loop of \<^verbatim>\<open>batch_evaluate\<close>. The name \<^verbatim>\<open>unobserved\<close> is bound to the object
  \<^verbatim>\<open>all_items\<close> itself, so the in-place \<^verbatim>\<open>-=\<close> and \<^verbatim>\<open>add\<close> change \<^verbatim>\<open>all_items\<close>: the
  next iteration starts from the set this one has ranked.
\<close>

fun batch_evaluate_loop :: "recommend_fn \<Rightarrow> evaluator \<Rightarrow> nat set \<Rightarrow> event list \<Rightarrow> error + evaluator \<times> npfloat list" where
  "batch_evaluate_loop R ev all_items [] = Inr (ev, [])"
| "batch_evaluate_loop R ev all_items (e # es) =
     (case candidates ev e all_items of
        Inl err \<Rightarrow> Inl err
      | Inr unobserved \<Rightarrow>
          (case recommend R ev e (target_list unobserved) of
             (ev1, recos, scores) \<Rightarrow>
               (case np_where_first recos (index (item e)) of
                  Inl err \<Rightarrow> Inl err
                | Inr pos \<Rightarrow>
                    (case batch_evaluate_loop R ev1 unobserved es of
                       Inl err \<Rightarrow> Inl err
                     | Inr (ev2, percentiles) \<Rightarrow>
                         Inr (ev2, percentile pos (length recos) # percentiles)))))"

definition batch_evaluate :: "recommend_fn \<Rightarrow> evaluator \<Rightarrow> event list \<Rightarrow> error + evaluator \<times> npfloat" where
  "batch_evaluate R ev test_events =
     (case batch_evaluate_loop R ev {0..<n_item (rec ev)} test_events of
        Inl err \<Rightarrow> Inl err
      | Inr (ev1, percentiles) \<Rightarrow> Inr (ev1, np_mean percentiles))"

text \<open>
  \<^verbatim>\<open>batch_update\<close>. \<^verbatim>\<open>np.random.shuffle\<close> permutes the caller's list in place; the random
  source is the parameter \<open>sh\<close>, which gives the permuted list for each epoch. The
  function returns the final content of \<^verbatim>\<open>train_events\<close> and, unless an error was raised,
  the evaluator with the logged MPR of every epoch.
\<close>

type_synonym shuffle = "nat \<Rightarrow> event list \<Rightarrow> event list"

fun batch_update_loop :: "shuffle \<Rightarrow> recommend_fn \<Rightarrow> int \<Rightarrow> nat list \<Rightarrow> evaluator \<Rightarrow> event list \<Rightarrow> event list
    \<Rightarrow> event list \<times> (error + evaluator \<times> npfloat list)" where
  "batch_update_loop sh R n_epoch [] ev train_events test_events = (train_events, Inr (ev, []))"
| "batch_update_loop sh R n_epoch (epoch # epochs) ev train_events test_events =
     (let train1 = (if n_epoch \<noteq> 1 then sh epoch train_events else train_events);
          ev1 = foldl (\<lambda>s e. update s e True) ev train1
      in case batch_evaluate R ev1 test_events of
           Inl err \<Rightarrow> (train1, Inl err)
         | Inr (ev2, MPR) \<Rightarrow>
             (case batch_update_loop sh R n_epoch epochs ev2 train1 test_events of
                (train2, Inl err) \<Rightarrow> (train2, Inl err)
              | (train2, Inr (ev3, mprs)) \<Rightarrow> (train2, Inr (ev3, MPR # mprs))))"

definition batch_update :: "shuffle \<Rightarrow> recommend_fn \<Rightarrow> evaluator \<Rightarrow> event list \<Rightarrow> event list \<Rightarrow> int
    \<Rightarrow> event list \<times> (error + evaluator \<times> npfloat list)" where
  "batch_update sh R ev train_events test_events n_epoch =
     batch_update_loop sh R n_epoch [0..<nat n_epoch] ev train_events test_events"

text \<open>A \<^verbatim>\<open>for\<close> loop whose body may raise.\<close>

fun for_each :: "('s \<Rightarrow> 'a \<Rightarrow> error + 's) \<Rightarrow> 'a list \<Rightarrow> 's \<Rightarrow> error + 's" where
  "for_each f [] s = Inr s"
| "for_each f (x # xs) s = (case f s x of Inl err \<Rightarrow> Inl err | Inr s1 \<Rightarrow> for_each f xs s1)"

definition bootstrap_event :: "evaluator \<Rightarrow> event \<Rightarrow> error + evaluator" where
  "bootstrap_event ev e = observed_add (index (user e)) (index (item e)) (validate ev e)"

definition fold_in_event :: "evaluator \<Rightarrow> event \<Rightarrow> error + evaluator" where
  "fold_in_event ev e =
     (case observed_add (index (user e)) (index (item e)) ev of
        Inl err \<Rightarrow> Inl err
      | Inr ev1 \<Rightarrow> Inr (update ev1 e False))"

text \<open>
  \<^verbatim>\<open>fit\<close>, with the final content of the caller's \<^verbatim>\<open>train_events\<close> list as first
  component of the result.
\<close>

definition fit :: "shuffle \<Rightarrow> recommend_fn \<Rightarrow> evaluator \<Rightarrow> event list \<Rightarrow> event list \<Rightarrow> int
    \<Rightarrow> event list \<times> (error + evaluator)" where
  "fit sh R ev train_events test_events n_epoch =
     (let ev1 = ev\<lparr>rec := init_model (rec ev)\<rparr> in
      case for_each bootstrap_event train_events ev1 of
        Inl err \<Rightarrow> (train_events, Inl err)
      | Inr ev2 \<Rightarrow>
          (let ev3 = foldl validate ev2 test_events in
           case batch_update sh R ev3 train_events test_events n_epoch of
             (train1, Inl err) \<Rightarrow> (train1, Inl err)
           | (train1, Inr (ev4, mprs)) \<Rightarrow>
               (case for_each fold_in_event test_events ev4 of
                  Inl err \<Rightarrow> (train1, Inl err)
                | Inr ev5 \<Rightarrow> (train1, Inr ev5))))"

text \<open>
  The caller's lists as objects. A store gives the content of the list object at each
  place; \<^verbatim>\<open>train_events\<close> and \<^verbatim>\<open>test_events\<close> are places, which may be the same one.
  \<^verbatim>\<open>np.random.shuffle(train_events)\<close> overwrites the object at \<^verbatim>\<open>train_events\<close>; every
  loop over a list reads the object when the loop starts. The functions return the
  store they leave.
\<close>

type_synonym store = "nat \<Rightarrow> event list"

fun batch_update_loop_store :: "shuffle \<Rightarrow> recommend_fn \<Rightarrow> int \<Rightarrow> nat list \<Rightarrow> evaluator \<Rightarrow> store \<Rightarrow> nat \<Rightarrow> nat
    \<Rightarrow> store \<times> (error + evaluator \<times> npfloat list)" where
  "batch_update_loop_store sh R n_epoch [] ev h train_events test_events = (h, Inr (ev, []))"
| "batch_update_loop_store sh R n_epoch (epoch # epochs) ev h train_events test_events =
     (let h1 = (if n_epoch \<noteq> 1 then h(train_events := sh epoch (h train_events)) else h);
          ev1 = foldl (\<lambda>s e. update s e True) ev (h1 train_events)
      in case batch_evaluate R ev1 (h1 test_events) of
           Inl err \<Rightarrow> (h1, Inl err)
         | Inr (ev2, MPR) \<Rightarrow>
             (case batch_update_loop_store sh R n_epoch epochs ev2 h1 train_events test_events of
                (h2, Inl err) \<Rightarrow> (h2, Inl err)
              | (h2, Inr (ev3, mprs)) \<Rightarrow> (h2, Inr (ev3, MPR # mprs))))"

definition fit_store :: "shuffle \<Rightarrow> recommend_fn \<Rightarrow> evaluator \<Rightarrow> store \<Rightarrow> nat \<Rightarrow> nat \<Rightarrow> int
    \<Rightarrow> store \<times> (error + evaluator)" where
  "fit_store sh R ev h train_events test_events n_epoch =
     (let ev1 = ev\<lparr>rec := init_model (rec ev)\<rparr> in
      case for_each bootstrap_event (h train_events) ev1 of
        Inl err \<Rightarrow> (h, Inl err)
      | Inr ev2 \<Rightarrow>
          (let ev3 = foldl validate ev2 (h test_events) in
           case batch_update_loop_store sh R n_epoch [0..<nat n_epoch] ev3 h train_events test_events of
             (h1, Inl err) \<Rightarrow> (h1, Inl err)
           | (h1, Inr (ev4, mprs)) \<Rightarrow>
               (case for_each fold_in_event (h1 test_events) ev4 of
                  Inl err \<Rightarrow> (h1, Inl err)
                | Inr ev5 \<Rightarrow> (h1, Inr ev5))))"

section \<open>Observing a run\<close>

text \<open>The actions that one call of \<^verbatim>\<open>__update\<close> and of \<^verbatim>\<open>__recommend\<close> adds to the history.\<close>

definition update_calls :: "bool \<Rightarrow> event \<Rightarrow> bool \<Rightarrow> action list" where
  "update_calls fr e is_batch_train =
     (if fr
      then [UpdateUserFeature (index (user e)) (feature (user e)),
            UpdateItemFeature (index (user e)) (feature (item e)),
            Update (index (user e)) (index (item e)) (evalue e) (Some (econtext e)) is_batch_train]
      else [Update (index (user e)) (index (item e)) (evalue e) None is_batch_train])"

definition recommend_calls :: "bool \<Rightarrow> event \<Rightarrow> nat list \<Rightarrow> action list" where
  "recommend_calls fr e target_i_indices =
     (if fr
      then [UpdateUserFeature (index (user e)) (feature (user e)),
            UpdateItemFeature (index (item e)) (feature (item e)),
            Recommend (index (user e)) target_i_indices (Some (econtext e))]
      else [Recommend (index (user e)) target_i_indices None])"

text \<open>The registrations that \<^verbatim>\<open>__validate\<close> performs for an event, given what is registered.\<close>

definition validate_calls :: "evaluator \<Rightarrow> event \<Rightarrow> action list" where
  "validate_calls ev e =
     (if is_new_user (rec ev) (index (user e))
      then [AddUser (index (user e)) (if is_feature_rec ev then Some (econtext e) else None)]
      else [])
     @ (if is_new_item (rec ev) (index (item e))
        then [AddItem (index (item e)) (if is_feature_rec ev then Some (feature (item e)) else None)]
        else [])"

text \<open>The actions added to the history between two states of a run.\<close>

definition new_actions :: "evaluator \<Rightarrow> evaluator \<Rightarrow> action list" where
  "new_actions ev ev1 = drop (length (log (rec ev))) (log (rec ev1))"

text \<open>The candidate lists of the \<^verbatim>\<open>recommend\<close> calls in a history, in order.\<close>

fun ranked_lists :: "action list \<Rightarrow> nat list list" where
  "ranked_lists [] = []"
| "ranked_lists (Recommend u c ctx # acts) = c # ranked_lists acts"
| "ranked_lists (a # acts) = ranked_lists acts"

text \<open>
  The contract of \<^verbatim>\<open>recommend\<close> (section 4.1 of the specification): the ranked indices
  are a permutation of the candidates, and there is one score for each.
\<close>

definition well_behaved :: "recommend_fn \<Rightarrow> bool" where
  "well_behaved R =
     (\<forall>r u c ctx. mset (fst (R r u c ctx)) = mset c \<and> length (snd (R r u c ctx)) = length c)"

text \<open>
  Item indices are dense and assigned on first sighting (section 3 of the specification):
  with \<open>n\<close> items registered as \<open>0, ..., n - 1\<close>, each event refers to a registered item
  or to the next free index \<open>n\<close>.
\<close>

fun dense_stream :: "nat \<Rightarrow> event list \<Rightarrow> bool" where
  "dense_stream n [] = True"
| "dense_stream n (e # es) =
     (index (item e) \<le> n \<and> dense_stream (if index (item e) = n then Suc n else n) es)"

text \<open>A random source that permutes: every shuffle keeps the events and their multiplicity.\<close>

definition permuting :: "shuffle \<Rightarrow> bool" where
  "permuting sh = (\<forall>epoch xs. mset (sh epoch xs) = mset xs)"

text \<open>
  The phases of \<^verbatim>\<open>fit\<close>, stated as the actions each phase is to add to the history.
  \<open>registration\<close> registers the user and the item of an event when they are not among the
  registered users \<open>U\<close> and items \<open>I\<close>. The bootstrap pass registers and then inserts the
  item into the user's observed set, for each event in order; the pre-registration pass
  registers only; the fold-in pass inserts the item into the observed set and then
  performs the non-batch update.
\<close>

definition user_indices :: "event list \<Rightarrow> nat set" where
  "user_indices es = set (map (\<lambda>e. index (user e)) es)"

definition item_indices :: "event list \<Rightarrow> nat set" where
  "item_indices es = set (map (\<lambda>e. index (item e)) es)"

definition registration :: "bool \<Rightarrow> nat set \<Rightarrow> nat set \<Rightarrow> event \<Rightarrow> action list" where
  "registration fr U I e =
     (if index (user e) \<in> U then []
      else [AddUser (index (user e)) (if fr then Some (econtext e) else None)])
     @ (if index (item e) \<in> I then []
        else [AddItem (index (item e)) (if fr then Some (feature (item e)) else None)])"


fun preregistration_history :: "bool \<Rightarrow> nat set \<Rightarrow> nat set \<Rightarrow> event list \<Rightarrow> action list" where
  "preregistration_history fr U I [] = []"
| "preregistration_history fr U I (e # es) =
     registration fr U I e
     @ preregistration_history fr (insert (index (user e)) U) (insert (index (item e)) I) es"

definition fold_in_history :: "bool \<Rightarrow> event list \<Rightarrow> action list" where
  "fold_in_history fr es =
     concat (map (\<lambda>e. ObservedAdd (index (user e)) (index (item e)) # update_calls fr e False) es)"

text \<open>
  The mean percentile rank in the words of the specification. \<open>position_of i xs\<close> is
  the 0-based position of the first occurrence of \<open>i\<close> in \<open>xs\<close>. For the test events in
  order and the candidate list \<open>c\<close> of each, the percentile is the position of the true
  item in the ranking returned for \<open>c\<close>, divided by \<open>len(c) - 1\<close>, times 100; each
  \<^verbatim>\<open>recommend\<close> call leaves the state in which the next event is ranked.
\<close>

definition position_of :: "nat \<Rightarrow> nat list \<Rightarrow> nat" where
  "position_of i xs = length (takeWhile (\<lambda>x. x \<noteq> i) xs)"


text \<open>
  The items that the events of a list record for a user.
\<close>

definition observed_in :: "event list \<Rightarrow> nat \<Rightarrow> nat set" where
  "observed_in es u = set (map (\<lambda>e. index (item e)) (filter (\<lambda>e. index (user e) = u) es))"


section \<open>Example inputs\<close>

text \<open>A ranking that returns the candidates in the order given, every score zero.\<close>

definition identity_ranking :: recommend_fn where
  "identity_ranking r u c ctx = (c, map (\<lambda>_. 0) c)"

text \<open>A ranking that breaks the contract: it returns nothing.\<close>

definition empty_ranking :: recommend_fn where
  "empty_ranking r u c ctx = ([], [])"

text \<open>A random source that leaves every list as it is, and one that reverses it.\<close>

definition no_shuffle :: shuffle where
  "no_shuffle epoch xs = xs"

definition reversing_shuffle :: shuffle where
  "reversing_shuffle epoch xs = (if epoch = 0 then rev xs else xs)"

definition example_event :: "nat \<Rightarrow> nat \<Rightarrow> event" where
  "example_event u i =
     \<lparr>user = \<lparr>index = u, feature = [1]\<rparr>, item = \<lparr>index = i, feature = [2]\<rparr>,
      evalue = 1, econtext = [3]\<rparr>"

definition empty_rec :: rec_state where
  "empty_rec = \<lparr>n_user = 0, users = Map.empty, n_item = 0, items = {}, log = []\<rparr>"

text \<open>
  Two users and three items are registered; user 0 has observed item 0, user 1 nothing.
  Repetition is excluded.
\<close>

definition example_evaluator :: "bool \<Rightarrow> evaluator" where
  "example_evaluator fr =
     \<lparr>rec = \<lparr>n_user = 2, users = [0 \<mapsto> {0}, 1 \<mapsto> {}], n_item = 3, items = {0, 1, 2}, log = []\<rparr>,
      is_feature_rec = fr, can_repeat = Some False\<rparr>"

text \<open>
  A store with two training events at place 0 and one test event at place 1.
\<close>

definition example_store :: store where
  "example_store a =
     (if a = 0 then [example_event 0 0, example_event 1 1]
      else if a = 1 then [example_event 0 2] else [])"

section \<open>What the evaluator leaves unchanged\<close>

lemma validate_frame [simp]:
  "can_repeat (validate ev e) = can_repeat ev"
  "is_feature_rec (validate ev e) = is_feature_rec ev"
  by (simp_all add: validate_def validate_user_def validate_item_def)

lemma update_frame [simp]:
  "can_repeat (update ev e b) = can_repeat ev"
  "is_feature_rec (update ev e b) = is_feature_rec ev"
  by (simp_all add: update_def)

lemma recommend_frame [simp]:
  "can_repeat (fst (recommend R ev e c)) = can_repeat ev"
  "is_feature_rec (fst (recommend R ev e c)) = is_feature_rec ev"
  by (simp_all add: recommend_def Let_def)

lemma observed_add_frame:
  assumes "observed_add u i ev = Inr ev1"
  shows "can_repeat ev1 = can_repeat ev" and "is_feature_rec ev1 = is_feature_rec ev"
  using assms by (auto simp: observed_add_def split: option.splits)

lemma foldl_update_frame [simp]:
  "can_repeat (foldl (\<lambda>s e. update s e b) ev es) = can_repeat ev"
  "is_feature_rec (foldl (\<lambda>s e. update s e b) ev es) = is_feature_rec ev"
  by (induction es arbitrary: ev) simp_all

lemma foldl_validate_frame [simp]:
  "can_repeat (foldl validate ev es) = can_repeat ev"
  "is_feature_rec (foldl validate ev es) = is_feature_rec ev"
  by (induction es arbitrary: ev) simp_all

lemma users_validate_item [simp]: "users (rec (validate_item ev e)) = users (rec ev)"
  by (simp add: validate_item_def add_item_def emit_def)

lemma validate_user_registered: "users (rec (validate_user ev e)) (index (user e)) \<noteq> None"
  by (simp add: validate_user_def add_user_def emit_def is_new_user_def)

lemma validate_registered: "users (rec (validate ev e)) (index (user e)) \<noteq> None"
  by (simp add: validate_def validate_user_registered)

lemma observed_add_ok:
  "users (rec ev) u \<noteq> None \<Longrightarrow> \<exists>ev1. observed_add u i ev = Inr ev1"
  by (auto simp: observed_add_def split: option.splits)

lemma bootstrap_event_ok: "\<exists>ev1. bootstrap_event ev e = Inr ev1 \<and> can_repeat ev1 = can_repeat ev"
proof -
  obtain ev1 where h: "observed_add (index (user e)) (index (item e)) (validate ev e) = Inr ev1"
    using observed_add_ok [OF validate_registered] by blast
  then show ?thesis
    using observed_add_frame(1) [OF h] by (simp add: bootstrap_event_def)
qed

lemma for_each_bootstrap_ok:
  "\<exists>ev1. for_each bootstrap_event es ev = Inr ev1 \<and> can_repeat ev1 = can_repeat ev"
proof (induction es arbitrary: ev)
  case Nil
  then show ?case by simp
next
  case (Cons e es)
  obtain ev1 where h: "bootstrap_event ev e = Inr ev1" "can_repeat ev1 = can_repeat ev"
    using bootstrap_event_ok by blast
  with Cons.IH [of ev1] show ?case by auto
qed

lemma batch_evaluate_unset:
  "can_repeat ev = None \<Longrightarrow> es \<noteq> [] \<Longrightarrow> batch_evaluate R ev es = Inl AttributeError"
  by (cases es) (simp_all add: batch_evaluate_def candidates_def)

lemma evaluate_unset:
  "can_repeat ev = None \<Longrightarrow> es \<noteq> [] \<Longrightarrow> evaluate R ev es = Inl AttributeError"
  by (cases es) (simp_all add: evaluate_step_def candidates_def Let_def)

lemma batch_update_unset:
  assumes "can_repeat ev = None" "test_events \<noteq> []" "0 < n_epoch"
  shows "snd (batch_update sh R ev train_events test_events n_epoch) = Inl AttributeError"
proof -
  have "[0..<nat n_epoch] = 0 # [1..<nat n_epoch]"
    using assms(3) by (simp add: upt_conv_Cons)
  then show ?thesis
    using assms(1,2) by (simp add: batch_update_def Let_def batch_evaluate_unset)
qed

section \<open>The repeat policy is never defaulted\<close>

text \<open>
  Claim C10, amended. The constructor does not assign \<^verbatim>\<open>can_repeat\<close>. As long as the
  attribute is missing, \<^verbatim>\<open>fit\<close> on a non-empty test set with at least one epoch,
  \<^verbatim>\<open>batch_evaluate\<close> on a non-empty test set and pulling one result from \<^verbatim>\<open>evaluate\<close>
  all end in an \<^verbatim>\<open>AttributeError\<close>; no default policy is applied.
\<close>

theorem can_repeat_unset_fails:
  assumes "can_repeat ev = None"
  shows "(test_events \<noteq> [] \<and> 0 < n_epoch \<longrightarrow>
            snd (fit sh R ev train_events test_events n_epoch) = Inl AttributeError)
       \<and> (test_events \<noteq> [] \<longrightarrow> batch_evaluate R ev test_events = Inl AttributeError)
       \<and> (test_events \<noteq> [] \<longrightarrow> evaluate R ev test_events = Inl AttributeError)"
proof (intro conjI impI)
  assume h: "test_events \<noteq> [] \<and> 0 < n_epoch"
  obtain ev2 where b: "for_each bootstrap_event train_events (ev\<lparr>rec := init_model (rec ev)\<rparr>) = Inr ev2"
      and c: "can_repeat ev2 = None"
    using for_each_bootstrap_ok [of train_events "ev\<lparr>rec := init_model (rec ev)\<rparr>"] assms by auto
  have "snd (batch_update sh R (foldl validate ev2 test_events) train_events test_events n_epoch) = Inl AttributeError"
    using batch_update_unset [of "foldl validate ev2 test_events"] c h by simp
  then obtain t where "batch_update sh R (foldl validate ev2 test_events) train_events test_events n_epoch
      = (t, Inl AttributeError)"
    by (metis prod.collapse)
  then show "snd (fit sh R ev train_events test_events n_epoch) = Inl AttributeError"
    by (simp add: fit_def Let_def b)
next
  assume "test_events \<noteq> []"
  then show "batch_evaluate R ev test_events = Inl AttributeError"
    using assms by (rule batch_evaluate_unset [rotated])
next
  assume "test_events \<noteq> []"
  then show "evaluate R ev test_events = Inl AttributeError"
    using assms by (rule evaluate_unset [rotated])
qed

theorem can_repeat_unset_fails_witness:
  "can_repeat (new_evaluator empty_rec False) = None
   \<and> [example_event 0 0] \<noteq> [] \<and> (0::int) < 1
   \<and> snd (fit no_shuffle identity_ranking (new_evaluator empty_rec False) [] [example_event 0 0] 1)
       = Inl AttributeError
   \<and> batch_evaluate identity_ranking (new_evaluator empty_rec False) [example_event 0 0]
       = Inl AttributeError
   \<and> evaluate identity_ranking (new_evaluator empty_rec False) [example_event 0 0]
       = Inl AttributeError"
proof -
  have h: "can_repeat (new_evaluator empty_rec False) = None"
    by (simp add: new_evaluator_def)
  show ?thesis
    using h can_repeat_unset_fails [OF h, of "[example_event 0 0]" 1 no_shuffle identity_ranking "[]"]
    by simp
qed

text \<open>
  Claim C10 as stated, that every call of \<^verbatim>\<open>fit\<close> with a non-empty test set fails while
  \<^verbatim>\<open>can_repeat\<close> is missing, fails for \<^verbatim>\<open>n_epoch = 0\<close>: no epoch runs, the attribute is
  never read and \<^verbatim>\<open>fit\<close> returns normally.
\<close>

theorem fit_without_epochs_ignores_can_repeat:
  "can_repeat (new_evaluator empty_rec False) = None
   \<and> \<not> isl (snd (fit no_shuffle identity_ranking (new_evaluator empty_rec False)
               [] [example_event 0 0] 0))"
  by code_simp

section \<open>Candidate sets of the batch evaluation\<close>

text \<open>
  Claim C2 says that \<^verbatim>\<open>batch_evaluate\<close> ranks, for every test event, all registered
  items minus the user's observed set plus the true item when repetition is excluded.
  The code removes and inserts on the one set object shared by all iterations. With
  items 0, 1, 2 registered, user 0 having observed item 0 and user 1 nothing, the test
  events (user 0, item 1) and (user 1, item 2) are ranked over \<open>[1, 2]\<close> and \<open>[1, 2]\<close>:
  item 0, removed for user 0, is missing for user 1 as well, where the claim gives
  \<open>{0, 1, 2}\<close>.
\<close>

theorem batch_evaluate_candidates_shrink:
  "map_sum id (\<lambda>(ev, mpr). log (rec ev))
     (batch_evaluate identity_ranking (example_evaluator False) [example_event 0 1, example_event 1 2])
     = Inr [Recommend 0 [1, 2] None, Recommend 1 [1, 2] None]
   \<and> candidates (example_evaluator False) (example_event 1 2)
        {0..<n_item (rec (example_evaluator False))} = Inr {0, 1, 2}"
  by code_simp

section \<open>Feature refresh before update and recommend\<close>

text \<open>
  Claim C3 says that on the feature-aware path every update is preceded by
  \<^verbatim>\<open>update_item_feature(e.item.index, e.item.feature)\<close>. The update path passes the user's
  index instead: for the event of user 0 on item 1 the item features are refreshed under
  index 0. The recommend path refreshes under the item's index 1.
\<close>

theorem update_refreshes_item_feature_under_user_index:
  "log (rec (update (example_evaluator True) (example_event 0 1) False))
     = [UpdateUserFeature 0 [1], UpdateItemFeature 0 [2], Update 0 1 1 (Some [3]) False]
   \<and> log (rec (fst (recommend identity_ranking (example_evaluator True) (example_event 0 1) [1, 2])))
     = [UpdateUserFeature 0 [1], UpdateItemFeature 1 [2], Recommend 0 [1, 2] (Some [3])]"
  by code_simp

section \<open>The history of a run\<close>

lemma emit_simps [simp]:
  "log (emit a r) = log r @ [a]"
  "users (emit a r) = users r"
  "items (emit a r) = items r"
  "n_item (emit a r) = n_item r"
  "n_user (emit a r) = n_user r"
  by (simp_all add: emit_def)

lemma update_rec [simp]:
  "log (rec (update ev e b)) = log (rec ev) @ update_calls (is_feature_rec ev) e b"
  "users (rec (update ev e b)) = users (rec ev)"
  "items (rec (update ev e b)) = items (rec ev)"
  "n_item (rec (update ev e b)) = n_item (rec ev)"
  "n_user (rec (update ev e b)) = n_user (rec ev)"
  by (simp_all add: update_def update_calls_def)

lemma recommend_rec [simp]:
  "log (rec (fst (recommend R ev e c))) = log (rec ev) @ recommend_calls (is_feature_rec ev) e c"
  "users (rec (fst (recommend R ev e c))) = users (rec ev)"
  "items (rec (fst (recommend R ev e c))) = items (rec ev)"
  "n_item (rec (fst (recommend R ev e c))) = n_item (rec ev)"
  "n_user (rec (fst (recommend R ev e c))) = n_user (rec ev)"
  by (simp_all add: recommend_def recommend_calls_def Let_def)

lemma recommend_output:
  "well_behaved R \<Longrightarrow> mset (fst (snd (recommend R ev e c))) = mset c"
  "well_behaved R \<Longrightarrow> length (snd (snd (recommend R ev e c))) = length c"
  by (simp_all add: recommend_def well_behaved_def Let_def)

lemma validate_log: "log (rec (validate ev e)) = log (rec ev) @ validate_calls ev e"
  by (simp add: validate_def validate_user_def validate_item_def validate_calls_def
      add_user_def add_item_def is_new_user_def is_new_item_def)

lemma validate_users:
  "users (rec (validate ev e)) =
     (if is_new_user (rec ev) (index (user e)) then (users (rec ev))(index (user e) \<mapsto> {}) else users (rec ev))"
  by (simp add: validate_def validate_user_def validate_item_def add_user_def add_item_def)

lemma validate_items:
  "items (rec (validate ev e)) = insert (index (item e)) (items (rec ev))"
  "n_item (rec (validate ev e)) =
     (if is_new_item (rec ev) (index (item e)) then Suc (n_item (rec ev)) else n_item (rec ev))"
  by (auto simp add: validate_def validate_user_def validate_item_def add_user_def add_item_def is_new_item_def)

lemma observed_add_InrD:
  assumes "observed_add u i ev = Inr ev1"
  shows "\<exists>obs. users (rec ev) u = Some obs \<and> users (rec ev1) = (users (rec ev))(u \<mapsto> insert i obs)"
    and "log (rec ev1) = log (rec ev) @ [ObservedAdd u i]"
    and "items (rec ev1) = items (rec ev)"
    and "n_item (rec ev1) = n_item (rec ev)"
    and "n_user (rec ev1) = n_user (rec ev)"
  using assms by (auto simp: observed_add_def split: option.splits)

lemma np_where_first_found:
  "i \<in> set xs \<Longrightarrow> \<exists>k. np_where_first xs i = Inr k \<and> k < length xs \<and> xs ! k = i \<and> (\<forall>j<k. xs ! j \<noteq> i)"
proof (induction xs)
  case Nil
  then show ?case by simp
next
  case (Cons x xs)
  show ?case
  proof (cases "x = i")
    case True
    then show ?thesis by simp
  next
    case False
    with Cons obtain k where k: "np_where_first xs i = Inr k" "k < length xs" "xs ! k = i" "\<forall>j<k. xs ! j \<noteq> i"
      by auto
    have "\<forall>j<Suc k. (x # xs) ! j \<noteq> i"
      using False k(4) by (auto simp: less_Suc_eq_0_disj)
    with False k show ?thesis by simp
  qed
qed

lemma np_where_first_InrD:
  "np_where_first xs i = Inr k \<Longrightarrow> k < length xs \<and> xs ! k = i \<and> (\<forall>j<k. xs ! j \<noteq> i)"
proof (induction xs arbitrary: k)
  case Nil
  then show ?case by simp
next
  case (Cons x xs)
  show ?case
  proof (cases "x = i")
    case True
    with Cons.prems show ?thesis by simp
  next
    case False
    with Cons.prems obtain k' where k': "np_where_first xs i = Inr k'" "k = Suc k'"
      by (auto split: sum.splits)
    from Cons.IH [OF k'(1)] False k'(2) show ?thesis
      by (auto simp: less_Suc_eq_0_disj)
  qed
qed

lemma target_list_set: "finite c \<Longrightarrow> set (target_list c) = c"
  by (simp add: target_list_def)

lemma target_list_length: "finite c \<Longrightarrow> length (target_list c) = card c"
  by (simp add: target_list_def)

lemma candidates_InrD:
  assumes "candidates ev e A = Inr c"
  shows "\<exists>b. can_repeat ev = Some b \<and> (b \<longrightarrow> c = A)
           \<and> (\<not> b \<longrightarrow> (\<exists>obs. users (rec ev) (index (user e)) = Some obs
                               \<and> c = insert (index (item e)) (A - obs)))"
  using assms by (auto simp: candidates_def split: option.splits bool.splits)

lemma candidates_finite: "candidates ev e A = Inr c \<Longrightarrow> finite A \<Longrightarrow> finite c"
  by (auto dest!: candidates_InrD) 


lemma evaluate_step_InrD:
  assumes "evaluate_step R ev e = Inr (ev1, s, rank)"
  shows "\<exists>c obs recos scores.
           candidates (validate ev e) e {0..<n_item (rec (validate ev e))} = Inr c
         \<and> snd (recommend R (validate ev e) e (target_list c)) = (recos, scores)
         \<and> np_where_first recos (index (item e)) = Inr rank
         \<and> scores \<noteq> [] \<and> s = hd scores
         \<and> users (rec (validate ev e)) (index (user e)) = Some obs
         \<and> users (rec ev1) = (users (rec (validate ev e)))(index (user e) \<mapsto> insert (index (item e)) obs)
         \<and> log (rec ev1) = log (rec (validate ev e))
              @ recommend_calls (is_feature_rec ev) e (target_list c)
              @ [ObservedAdd (index (user e)) (index (item e))]
              @ update_calls (is_feature_rec ev) e False
         \<and> items (rec ev1) = items (rec (validate ev e))
         \<and> n_item (rec ev1) = n_item (rec (validate ev e))
         \<and> can_repeat ev1 = can_repeat ev \<and> is_feature_rec ev1 = is_feature_rec ev"
proof -
  let ?v = "validate ev e"
  from assms obtain c where c: "candidates ?v e {0..<n_item (rec ?v)} = Inr c"
    by (auto simp: evaluate_step_def Let_def split: sum.splits)
  obtain v1 recos scores where r: "recommend R ?v e (target_list c) = (v1, recos, scores)"
    by (cases "recommend R ?v e (target_list c)") auto
  from assms c r obtain v2 where
        k: "np_where_first recos (index (item e)) = Inr rank"
    and o: "observed_add (index (user e)) (index (item e)) v1 = Inr v2"
    and sc: "scores \<noteq> []" "s = hd scores"
    and e1: "ev1 = update v2 e False"
    by (auto simp: evaluate_step_def Let_def split: sum.splits list.splits)
  have v1: "v1 = fst (recommend R ?v e (target_list c))"
    using r by simp
  from observed_add_InrD [OF o] obtain obs where
        u: "users (rec v1) (index (user e)) = Some obs"
           "users (rec v2) = (users (rec v1))(index (user e) \<mapsto> insert (index (item e)) obs)"
    and l: "log (rec v2) = log (rec v1) @ [ObservedAdd (index (user e)) (index (item e))]"
    and i: "items (rec v2) = items (rec v1)" "n_item (rec v2) = n_item (rec v1)"
    by blast
  have f: "can_repeat v2 = can_repeat v1" "is_feature_rec v2 = is_feature_rec v1"
    using observed_add_frame [OF o] by simp_all
  have sr: "snd (recommend R ?v e (target_list c)) = (recos, scores)"
    using r by simp
  have w: "users (rec v1) = users (rec ?v)" "items (rec v1) = items (rec ?v)"
      "n_item (rec v1) = n_item (rec ?v)" "can_repeat v1 = can_repeat ev"
      "is_feature_rec v1 = is_feature_rec ev"
      "log (rec v1) = log (rec ?v) @ recommend_calls (is_feature_rec ev) e (target_list c)"
    unfolding v1 by simp_all
  show ?thesis
    using c sr k sc u l i f w by (simp add: e1)
qed

lemma evaluate_step_ok:
  assumes wb: "well_behaved R" and cr: "can_repeat ev = Some b"
    and d: "b \<longrightarrow> items (rec ev) = {0..<n_item (rec ev)} \<and> index (item e) \<le> n_item (rec ev)"
  shows "\<exists>ev1 s rank c. evaluate_step R ev e = Inr (ev1, s, rank)
           \<and> candidates (validate ev e) e {0..<n_item (rec (validate ev e))} = Inr c
           \<and> finite c \<and> index (item e) \<in> c \<and> rank < card c"
proof -
  let ?v = "validate ev e"
  let ?A = "{0..<n_item (rec ?v)}"
  obtain obs where obs: "users (rec ?v) (index (user e)) = Some obs"
    using validate_registered [of ev e] by auto
  have inA: "b \<Longrightarrow> index (item e) \<in> ?A"
    using d by (auto simp: validate_items is_new_item_def)
  obtain c where c: "candidates ?v e ?A = Inr c" and mem: "index (item e) \<in> c" and fin: "finite c"
    using cr obs inA by (cases b) (auto simp: candidates_def)
  obtain v1 recos scores where r: "recommend R ?v e (target_list c) = (v1, recos, scores)"
    by (cases "recommend R ?v e (target_list c)") auto
  have perm: "mset recos = mset (target_list c)" and len: "length scores = length (target_list c)"
    using recommend_output [OF wb, of ?v e "target_list c"] r by simp_all
  have "index (item e) \<in> set recos"
    using perm mem target_list_set [OF fin] by (metis set_mset_mset)
  then obtain rank where k: "np_where_first recos (index (item e)) = Inr rank" "rank < length recos"
    using np_where_first_found by blast
  have lr: "length recos = card c"
    using perm target_list_length [OF fin] by (metis size_mset)
  have "c \<noteq> {}" using mem by auto
  then have "scores \<noteq> []"
    using len target_list_length [OF fin] fin by auto
  then obtain s ss where sc: "scores = s # ss" by (cases scores) auto
  have "users (rec v1) (index (user e)) = Some obs"
    using r obs recommend_rec(2) [of R ?v e "target_list c"] by simp
  then obtain v2 where o: "observed_add (index (user e)) (index (item e)) v1 = Inr v2"
    using observed_add_ok [of v1] by auto
  have "evaluate_step R ev e = Inr (update v2 e False, s, rank)"
    by (simp add: evaluate_step_def Let_def c r k(1) o sc)
  then show ?thesis
    using c fin mem k(2) lr by auto
qed

section \<open>Scoring precedes observation\<close>

lemma ranked_lists_append: "ranked_lists (xs @ ys) = ranked_lists xs @ ranked_lists ys"
  by (induction xs rule: ranked_lists.induct) simp_all

lemma ranked_lists_calls [simp]:
  "ranked_lists (validate_calls ev e) = []"
  "ranked_lists (recommend_calls fr e c) = [c]"
  "ranked_lists (update_calls fr e b) = []"
  by (simp_all add: validate_calls_def recommend_calls_def update_calls_def)

lemma evaluate_step_log:
  assumes "evaluate_step R ev e = Inr (ev1, s, rank)"
    and "candidates (validate ev e) e {0..<n_item (rec (validate ev e))} = Inr c"
  shows "log (rec ev1) = log (rec ev) @ validate_calls ev e
           @ recommend_calls (is_feature_rec ev) e (target_list c)
           @ [ObservedAdd (index (user e)) (index (item e))]
           @ update_calls (is_feature_rec ev) e False"
  using evaluate_step_InrD [OF assms(1)] assms(2) by (auto simp: validate_log)

lemma evaluate_log_extends:
  "evaluate R ev es = Inr (ev1, rs) \<Longrightarrow> \<exists>acts. log (rec ev1) = log (rec ev) @ acts"
proof (induction es arbitrary: ev ev1 rs)
  case Nil
  then show ?case by simp
next
  case (Cons e es)
  from Cons.prems obtain v s rank rs' where
        st: "evaluate_step R ev e = Inr (v, s, rank)"
    and re: "evaluate R v es = Inr (ev1, rs')"
    by (auto split: sum.splits)
  from evaluate_step_InrD [OF st] obtain a where "log (rec v) = log (rec ev) @ a"
    by (auto simp: validate_log)
  moreover from Cons.IH [OF re] obtain a' where "log (rec ev1) = log (rec v) @ a'"
    by blast
  ultimately show ?case by simp
qed

lemma evaluate_append:
  "evaluate R ev (es @ es') =
     (case evaluate R ev es of
        Inl err \<Rightarrow> Inl err
      | Inr (ev1, rs) \<Rightarrow>
          (case evaluate R ev1 es' of
             Inl err \<Rightarrow> Inl err
           | Inr (ev2, rs') \<Rightarrow> Inr (ev2, rs @ rs')))"
  by (induction es arbitrary: ev) (auto split: sum.splits)

text \<open>
  Claim C1. Let \<open>e\<close> be the last event pulled so far from \<^verbatim>\<open>evaluate\<close>. All earlier
  events have been processed completely, up to a state \<open>ev1\<close>, before anything is done
  for \<open>e\<close>. The candidates of \<open>e\<close> and its rank are computed in the state that
  registration of \<open>e\<close> leaves, where the observed set of the user is still the one the
  earlier events have built (empty for a new user). In the history the actions of \<open>e\<close>
  follow those of all earlier events, in the order registration, recommend, insertion
  of the item into the observed set, update; only the final state has the item of \<open>e\<close>
  added to the observed set.
\<close>

theorem evaluate_scores_before_observing:
  assumes "evaluate R ev (es @ [e]) = Inr (ev2, rs2)"
  shows "\<exists>ev1 rs1 s rank c obs.
           evaluate R ev es = Inr (ev1, rs1) \<and> rs2 = rs1 @ [(s, rank)]
         \<and> obs = (case users (rec ev1) (index (user e)) of None \<Rightarrow> {} | Some seen \<Rightarrow> seen)
         \<and> users (rec (validate ev1 e)) (index (user e)) = Some obs
         \<and> candidates (validate ev1 e) e {0..<n_item (rec (validate ev1 e))} = Inr c
         \<and> np_where_first (fst (snd (recommend R (validate ev1 e) e (target_list c)))) (index (item e))
             = Inr rank
         \<and> log (rec ev2) = log (rec ev1) @ validate_calls ev1 e
             @ recommend_calls (is_feature_rec ev1) e (target_list c)
             @ [ObservedAdd (index (user e)) (index (item e))]
             @ update_calls (is_feature_rec ev1) e False
         \<and> users (rec ev2) = (users (rec (validate ev1 e)))(index (user e) \<mapsto> insert (index (item e)) obs)"
proof -
  from assms obtain ev1 rs1 s rank where
        pre: "evaluate R ev es = Inr (ev1, rs1)"
    and st: "evaluate_step R ev1 e = Inr (ev2, s, rank)"
    and rs: "rs2 = rs1 @ [(s, rank)]"
    by (auto simp: evaluate_append split: sum.splits)
  from evaluate_step_InrD [OF st] obtain c obs recos scores where
        c: "candidates (validate ev1 e) e {0..<n_item (rec (validate ev1 e))} = Inr c"
    and r: "snd (recommend R (validate ev1 e) e (target_list c)) = (recos, scores)"
    and k: "np_where_first recos (index (item e)) = Inr rank"
    and u: "users (rec (validate ev1 e)) (index (user e)) = Some obs"
           "users (rec ev2) = (users (rec (validate ev1 e)))(index (user e) \<mapsto> insert (index (item e)) obs)"
    by blast
  have o: "obs = (case users (rec ev1) (index (user e)) of None \<Rightarrow> {} | Some seen \<Rightarrow> seen)"
    using u(1) by (auto simp: validate_users is_new_user_def split: if_splits option.splits)
  have "np_where_first (fst (snd (recommend R (validate ev1 e) e (target_list c)))) (index (item e))
          = Inr rank"
    using r k by simp
  with pre rs o u c evaluate_step_log [OF st c] show ?thesis
    by blast
qed

lemma evaluate_succeeds:
  assumes "well_behaved R" and "can_repeat ev = Some b"
    and "b \<longrightarrow> items (rec ev) = {0..<n_item (rec ev)} \<and> dense_stream (n_item (rec ev)) es"
  shows "\<exists>ev1 rs cs. evaluate R ev es = Inr (ev1, rs)
           \<and> cs = ranked_lists (new_actions ev ev1)
           \<and> length rs = length es \<and> length cs = length es
           \<and> (\<forall>k<length es. index (item (es ! k)) \<in> set (cs ! k) \<and> snd (rs ! k) < length (cs ! k))"
  using assms
proof (induction es arbitrary: ev)
  case Nil
  then show ?case by (simp add: new_actions_def)
next
  case (Cons e es)
  have d: "b \<longrightarrow> items (rec ev) = {0..<n_item (rec ev)} \<and> index (item e) \<le> n_item (rec ev)"
    using Cons.prems(3) by simp
  from evaluate_step_ok [OF Cons.prems(1,2) d] obtain v s rank c where
        st: "evaluate_step R ev e = Inr (v, s, rank)"
    and c: "candidates (validate ev e) e {0..<n_item (rec (validate ev e))} = Inr c"
    and fin: "finite c" and mem: "index (item e) \<in> c" and rk: "rank < card c"
    by blast
  from evaluate_step_InrD [OF st] have
        it: "items (rec v) = items (rec (validate ev e))" "n_item (rec v) = n_item (rec (validate ev e))"
    and cr: "can_repeat v = Some b"
    using Cons.prems(2) by auto
  have inv: "b \<longrightarrow> items (rec v) = {0..<n_item (rec v)} \<and> dense_stream (n_item (rec v)) es"
  proof
    assume b
    with Cons.prems(3) have i: "items (rec ev) = {0..<n_item (rec ev)}"
        and le: "index (item e) \<le> n_item (rec ev)"
        and ds: "dense_stream (if index (item e) = n_item (rec ev) then Suc (n_item (rec ev)) else n_item (rec ev)) es"
      by simp_all
    show "items (rec v) = {0..<n_item (rec v)} \<and> dense_stream (n_item (rec v)) es"
    proof (cases "index (item e) = n_item (rec ev)")
      case True
      then have "is_new_item (rec ev) (index (item e))"
        using i by (simp add: is_new_item_def)
      then have "n_item (rec v) = Suc (n_item (rec ev))"
        by (simp add: it validate_items)
      moreover have "items (rec v) = {0..<Suc (n_item (rec ev))}"
        using True i by (simp add: it validate_items atLeastLessThanSuc)
      ultimately show ?thesis using ds True by simp
    next
      case False
      then have lt: "index (item e) < n_item (rec ev)" using le by simp
      then have "\<not> is_new_item (rec ev) (index (item e))"
        using i by (simp add: is_new_item_def)
      then have "n_item (rec v) = n_item (rec ev)"
        by (simp add: it validate_items)
      moreover have "items (rec v) = {0..<n_item (rec ev)}"
        using lt i by (simp add: it validate_items insert_absorb)
      ultimately show ?thesis using ds False by simp
    qed
  qed
  from Cons.IH [OF Cons.prems(1) cr inv] obtain ev1 rs where
        re: "evaluate R v es = Inr (ev1, rs)"
    and ln: "length rs = length es" "length (ranked_lists (new_actions v ev1)) = length es"
    and bd: "\<forall>k<length es. index (item (es ! k)) \<in> set (ranked_lists (new_actions v ev1) ! k)
                \<and> snd (rs ! k) < length (ranked_lists (new_actions v ev1) ! k)"
    by blast
  from evaluate_log_extends [OF re] obtain acts where a: "log (rec ev1) = log (rec v) @ acts"
    by blast
  have cs: "ranked_lists (new_actions ev ev1) = target_list c # ranked_lists (new_actions v ev1)"
    using a evaluate_step_log [OF st c] by (simp add: new_actions_def ranked_lists_append)
  have ev: "evaluate R ev (e # es) = Inr (ev1, (s, rank) # rs)"
    using st re by simp
  have "\<forall>k<length (e # es). index (item ((e # es) ! k)) \<in> set (ranked_lists (new_actions ev ev1) ! k)
          \<and> snd (((s, rank) # rs) ! k) < length (ranked_lists (new_actions ev ev1) ! k)"
  proof (intro allI impI)
    fix k assume k: "k < length (e # es)"
    show "index (item ((e # es) ! k)) \<in> set (ranked_lists (new_actions ev ev1) ! k)
          \<and> snd (((s, rank) # rs) ! k) < length (ranked_lists (new_actions ev ev1) ! k)"
    proof (cases k)
      case 0
      then show ?thesis
        using mem rk by (simp add: cs target_list_set [OF fin] target_list_length [OF fin])
    next
      case (Suc j)
      then show ?thesis
        using bd k by (simp add: cs)
    qed
  qed
  moreover have "length ((s, rank) # rs) = length (e # es)"
    using ln(1) by simp
  moreover have "length (ranked_lists (new_actions ev ev1)) = length (e # es)"
    using ln(2) by (simp add: cs)
  ultimately show ?case
    using ev by blast
qed

lemma well_behaved_identity_ranking: "well_behaved identity_ranking"
  by (simp add: well_behaved_def identity_ranking_def)

lemma not_isl_Inr: "\<not> isl x \<Longrightarrow> \<exists>y. x = Inr y"
  by (cases x) simp_all

theorem evaluate_scores_before_observing_witness:
  "\<exists>ev2 rs2.
      evaluate identity_ranking (set_can_repeat False (new_evaluator empty_rec False))
        ([example_event 0 0] @ [example_event 0 1]) = Inr (ev2, rs2)
    \<and> (\<exists>ev1 rs1 s rank c obs.
           evaluate identity_ranking (set_can_repeat False (new_evaluator empty_rec False))
             [example_event 0 0] = Inr (ev1, rs1)
         \<and> rs2 = rs1 @ [(s, rank)]
         \<and> obs = (case users (rec ev1) (index (user (example_event 0 1))) of
                    None \<Rightarrow> {} | Some seen \<Rightarrow> seen)
         \<and> users (rec (validate ev1 (example_event 0 1))) (index (user (example_event 0 1))) = Some obs
         \<and> candidates (validate ev1 (example_event 0 1)) (example_event 0 1)
              {0..<n_item (rec (validate ev1 (example_event 0 1)))} = Inr c
         \<and> np_where_first
              (fst (snd (recommend identity_ranking (validate ev1 (example_event 0 1))
                 (example_event 0 1) (target_list c))))
              (index (item (example_event 0 1))) = Inr rank
         \<and> log (rec ev2) = log (rec ev1) @ validate_calls ev1 (example_event 0 1)
              @ recommend_calls (is_feature_rec ev1) (example_event 0 1) (target_list c)
              @ [ObservedAdd (index (user (example_event 0 1))) (index (item (example_event 0 1)))]
              @ update_calls (is_feature_rec ev1) (example_event 0 1) False
         \<and> users (rec ev2) = (users (rec (validate ev1 (example_event 0 1))))
              (index (user (example_event 0 1)) \<mapsto> insert (index (item (example_event 0 1))) obs))"
proof -
  have "\<not> isl (evaluate identity_ranking (set_can_repeat False (new_evaluator empty_rec False))
          ([example_event 0 0] @ [example_event 0 1]))"
    by code_simp
  then obtain ev2 rs2 where h:
    "evaluate identity_ranking (set_can_repeat False (new_evaluator empty_rec False))
       ([example_event 0 0] @ [example_event 0 1]) = Inr (ev2, rs2)"
    using not_isl_Inr by fastforce
  show ?thesis
    using h evaluate_scores_before_observing [OF h] by blast
qed

lemma evaluate_InrD_bounds:
  assumes "well_behaved R" and "evaluate R ev es = Inr (ev1, rs)"
  shows "length rs = length es \<and> length (ranked_lists (new_actions ev ev1)) = length es
         \<and> (\<forall>k<length es. index (item (es ! k)) \<in> set (ranked_lists (new_actions ev ev1) ! k)
               \<and> snd (rs ! k) < length (ranked_lists (new_actions ev ev1) ! k))"
  using assms(2)
proof (induction es arbitrary: ev rs)
  case Nil
  then show ?case by (simp add: new_actions_def)
next
  case (Cons e es)
  from Cons.prems obtain v s rank rs1 where
        st: "evaluate_step R ev e = Inr (v, s, rank)"
    and re: "evaluate R v es = Inr (ev1, rs1)"
    and rs: "rs = (s, rank) # rs1"
    by (auto split: sum.splits)
  from evaluate_step_InrD [OF st] obtain c recos scores where
        c: "candidates (validate ev e) e {0..<n_item (rec (validate ev e))} = Inr c"
    and r: "snd (recommend R (validate ev e) e (target_list c)) = (recos, scores)"
    and k: "np_where_first recos (index (item e)) = Inr rank"
    by blast
  have "mset recos = mset (target_list c)"
    using recommend_output(1) [OF assms(1), of "validate ev e" e "target_list c"] r by simp
  then have sr: "set recos = set (target_list c)" and lr: "length recos = length (target_list c)"
    by (metis set_mset_mset, metis size_mset)
  from np_where_first_InrD [OF k] have "rank < length recos" "recos ! rank = index (item e)"
    by simp_all
  then have mem: "index (item e) \<in> set (target_list c)" and rk: "rank < length (target_list c)"
    using sr lr by (metis nth_mem, simp)
  from evaluate_log_extends [OF re] obtain acts where a: "log (rec ev1) = log (rec v) @ acts"
    by blast
  have cs: "ranked_lists (new_actions ev ev1) = target_list c # ranked_lists (new_actions v ev1)"
    using a evaluate_step_log [OF st c] by (simp add: new_actions_def ranked_lists_append)
  note ih = Cons.IH [OF re]
  have "\<forall>k<length (e # es). index (item ((e # es) ! k)) \<in> set (ranked_lists (new_actions ev ev1) ! k)
          \<and> snd (rs ! k) < length (ranked_lists (new_actions ev ev1) ! k)"
  proof (intro allI impI)
    fix k assume k: "k < length (e # es)"
    show "index (item ((e # es) ! k)) \<in> set (ranked_lists (new_actions ev ev1) ! k)
          \<and> snd (rs ! k) < length (ranked_lists (new_actions ev ev1) ! k)"
    proof (cases k)
      case 0
      then show ?thesis using mem rk by (simp add: cs rs)
    next
      case (Suc j)
      then show ?thesis using ih k by (simp add: cs rs)
    qed
  qed
  moreover have "length rs = length (e # es)"
    using ih by (simp add: rs)
  moreover have "length (ranked_lists (new_actions ev ev1)) = length (e # es)"
    using ih by (simp add: cs)
  ultimately show ?case by blast
qed

text \<open>
  Claim C5. Let \<^verbatim>\<open>recommend\<close> return a permutation of the candidates it is given. For
  every result that \<^verbatim>\<open>evaluate\<close> yields, the true item is among the candidates handed to
  \<^verbatim>\<open>recommend\<close> for that event and the rank is smaller than their number. When
  repetition is excluded the true item is inserted into the candidates whatever has been
  observed, and a result is yielded for every event; when repetition is allowed, a result
  is yielded for every event of a stream with dense item indices.
\<close>

theorem evaluate_rank_bounds:
  assumes "well_behaved R"
  shows "(evaluate R ev es = Inr (ev1, rs) \<longrightarrow>
            length rs = length es \<and> length (ranked_lists (new_actions ev ev1)) = length es
          \<and> (\<forall>k<length es. index (item (es ! k)) \<in> set (ranked_lists (new_actions ev ev1) ! k)
                \<and> snd (rs ! k) < length (ranked_lists (new_actions ev ev1) ! k)))
       \<and> (can_repeat ev = Some False \<longrightarrow> (\<exists>ev2 rs2. evaluate R ev es = Inr (ev2, rs2)))
       \<and> (can_repeat ev = Some True \<and> items (rec ev) = {0..<n_item (rec ev)}
            \<and> dense_stream (n_item (rec ev)) es \<longrightarrow>
          (\<exists>ev2 rs2. evaluate R ev es = Inr (ev2, rs2)))"
proof (intro conjI impI)
  assume "evaluate R ev es = Inr (ev1, rs)"
  from evaluate_InrD_bounds [OF assms this]
  show "length rs = length es" "length (ranked_lists (new_actions ev ev1)) = length es"
    "\<forall>k<length es. index (item (es ! k)) \<in> set (ranked_lists (new_actions ev ev1) ! k)
                \<and> snd (rs ! k) < length (ranked_lists (new_actions ev ev1) ! k)"
    by simp_all
next
  assume c: "can_repeat ev = Some False"
  have "False \<longrightarrow> items (rec ev) = {0..<n_item (rec ev)} \<and> dense_stream (n_item (rec ev)) es"
    by simp
  from evaluate_succeeds [OF assms c this] show "\<exists>ev2 rs2. evaluate R ev es = Inr (ev2, rs2)"
    by blast
next
  assume h: "can_repeat ev = Some True \<and> items (rec ev) = {0..<n_item (rec ev)}
            \<and> dense_stream (n_item (rec ev)) es"
  then have c: "can_repeat ev = Some True"
    and d: "True \<longrightarrow> items (rec ev) = {0..<n_item (rec ev)} \<and> dense_stream (n_item (rec ev)) es"
    by simp_all
  from evaluate_succeeds [OF assms c d] show "\<exists>ev2 rs2. evaluate R ev es = Inr (ev2, rs2)"
    by blast
qed

theorem evaluate_rank_bounds_witness:
  "well_behaved identity_ranking
   \<and> can_repeat (example_evaluator False) = Some False
   \<and> (\<exists>ev1 rs.
         evaluate identity_ranking (example_evaluator False)
           [example_event 0 0, example_event 0 5, example_event 1 0] = Inr (ev1, rs)
       \<and> length rs = length [example_event 0 0, example_event 0 5, example_event 1 0]
       \<and> length (ranked_lists (new_actions (example_evaluator False) ev1))
           = length [example_event 0 0, example_event 0 5, example_event 1 0]
       \<and> (\<forall>k<length [example_event 0 0, example_event 0 5, example_event 1 0].
             index (item ([example_event 0 0, example_event 0 5, example_event 1 0] ! k))
               \<in> set (ranked_lists (new_actions (example_evaluator False) ev1) ! k)
           \<and> snd (rs ! k) < length (ranked_lists (new_actions (example_evaluator False) ev1) ! k)))
   \<and> can_repeat (set_can_repeat True (new_evaluator empty_rec False)) = Some True
   \<and> items (rec (set_can_repeat True (new_evaluator empty_rec False)))
       = {0..<n_item (rec (set_can_repeat True (new_evaluator empty_rec False)))}
   \<and> dense_stream (n_item (rec (set_can_repeat True (new_evaluator empty_rec False))))
       [example_event 0 0, example_event 0 1, example_event 1 0]
   \<and> (\<exists>ev2 rs2.
         evaluate identity_ranking (set_can_repeat True (new_evaluator empty_rec False))
           [example_event 0 0, example_event 0 1, example_event 1 0] = Inr (ev2, rs2))"
proof -
  let ?ev = "set_can_repeat True (new_evaluator empty_rec False)"
  let ?es = "[example_event 0 0, example_event 0 5, example_event 1 0]"
  have cf: "can_repeat (example_evaluator False) = Some False"
    by (simp add: example_evaluator_def)
  note tf = evaluate_rank_bounds [OF well_behaved_identity_ranking, of "example_evaluator False" ?es]
  from tf cf obtain ev1 rs where
    run: "evaluate identity_ranking (example_evaluator False) ?es = Inr (ev1, rs)"
    by blast
  have 1: "\<exists>ev1 rs.
         evaluate identity_ranking (example_evaluator False) ?es = Inr (ev1, rs)
       \<and> length rs = length ?es
       \<and> length (ranked_lists (new_actions (example_evaluator False) ev1)) = length ?es
       \<and> (\<forall>k<length ?es.
             index (item (?es ! k)) \<in> set (ranked_lists (new_actions (example_evaluator False) ev1) ! k)
           \<and> snd (rs ! k) < length (ranked_lists (new_actions (example_evaluator False) ev1) ! k))"
    using run evaluate_rank_bounds [OF well_behaved_identity_ranking,
        of "example_evaluator False" ?es ev1 rs]
    by blast
  have c: "can_repeat ?ev = Some True"
    by (simp add: set_can_repeat_def)
  have i: "items (rec ?ev) = {0..<n_item (rec ?ev)}"
    by (simp add: set_can_repeat_def new_evaluator_def init_model_def empty_rec_def)
  have d: "dense_stream (n_item (rec ?ev)) [example_event 0 0, example_event 0 1, example_event 1 0]"
    by (simp add: set_can_repeat_def new_evaluator_def init_model_def empty_rec_def example_event_def)
  have 2: "\<exists>ev2 rs2. evaluate identity_ranking ?ev
             [example_event 0 0, example_event 0 1, example_event 1 0] = Inr (ev2, rs2)"
    using c i d evaluate_rank_bounds [OF well_behaved_identity_ranking,
        of ?ev "[example_event 0 0, example_event 0 1, example_event 1 0]"]
    by blast
  show ?thesis
    by (intro conjI well_behaved_identity_ranking cf 1 c i d 2)
qed

section \<open>Mean percentile rank\<close>







lemma batch_evaluate_loop_head:
  assumes wb: "well_behaved R" and fin: "finite A"
    and run: "batch_evaluate_loop R ev A (e # es) = Inr (ev2, ps)"
  shows "\<exists>c pos ps1. candidates ev e A = Inr c
           \<and> np_where_first (fst (snd (recommend R ev e (target_list c)))) (index (item e)) = Inr pos
           \<and> pos < card c
           \<and> batch_evaluate_loop R (fst (recommend R ev e (target_list c))) c es = Inr (ev2, ps1)
           \<and> ps = percentile pos (card c) # ps1"
proof -
  from run obtain c where c: "candidates ev e A = Inr c"
    by (auto split: sum.splits)
  have fc: "finite c" using candidates_finite [OF c fin] .
  obtain ev1 recos scores where r: "recommend R ev e (target_list c) = (ev1, recos, scores)"
    by (cases "recommend R ev e (target_list c)") auto
  from run c r obtain pos ps1 where
        k: "np_where_first recos (index (item e)) = Inr pos"
    and re: "batch_evaluate_loop R ev1 c es = Inr (ev2, ps1)"
    and ps: "ps = percentile pos (length recos) # ps1"
    by (auto split: sum.splits)
  have "mset recos = mset (target_list c)"
    using recommend_output(1) [OF wb, of ev e "target_list c"] r by simp
  then have lr: "length recos = card c"
    using target_list_length [OF fc] by (metis size_mset)
  have "pos < length recos"
    using np_where_first_InrD [OF k] by simp
  with c r k re ps lr show ?thesis by simp
qed

lemma batch_evaluate_loop_run:
  assumes "well_behaved R" and "can_repeat ev = Some b"
    and "\<forall>e\<in>set es. users (rec ev) (index (user e)) \<noteq> None"
    and "b \<longrightarrow> (\<forall>e\<in>set es. index (item e) \<in> A)"
    and "finite A"
  shows "\<exists>ev1 ps acts. batch_evaluate_loop R ev A es = Inr (ev1, ps)
           \<and> log (rec ev1) = log (rec ev) @ acts
           \<and> length ps = length es \<and> length (ranked_lists acts) = length es
           \<and> (\<forall>k<length es. \<exists>pos<length (ranked_lists acts ! k).
                  ps ! k = percentile pos (length (ranked_lists acts ! k)))
           \<and> users (rec ev1) = users (rec ev) \<and> items (rec ev1) = items (rec ev)
           \<and> n_item (rec ev1) = n_item (rec ev) \<and> n_user (rec ev1) = n_user (rec ev)
           \<and> can_repeat ev1 = can_repeat ev \<and> is_feature_rec ev1 = is_feature_rec ev"
  using assms
proof (induction es arbitrary: ev A)
  case Nil
  then show ?case by simp
next
  case (Cons e es)
  obtain obs where obs: "users (rec ev) (index (user e)) = Some obs"
    using Cons.prems(3) by auto
  have inA: "b \<Longrightarrow> index (item e) \<in> A"
    using Cons.prems(4) by simp
  obtain c where c: "candidates ev e A = Inr c" and mem: "index (item e) \<in> c"
      and cA: "b \<longrightarrow> c = A"
    using Cons.prems(2) obs inA by (cases b) (auto simp: candidates_def)
  have fc: "finite c" using candidates_finite [OF c Cons.prems(5)] .
  obtain v recos scores where r: "recommend R ev e (target_list c) = (v, recos, scores)"
    by (cases "recommend R ev e (target_list c)") auto
  have v: "v = fst (recommend R ev e (target_list c))" using r by simp
  have perm: "mset recos = mset (target_list c)"
    using recommend_output(1) [OF Cons.prems(1), of ev e "target_list c"] r by simp
  have lr: "length recos = length (target_list c)"
    using perm by (metis size_mset)
  have "index (item e) \<in> set recos"
    using perm mem target_list_set [OF fc] by (metis set_mset_mset)
  then obtain pos where k: "np_where_first recos (index (item e)) = Inr pos" "pos < length recos"
    using np_where_first_found by blast
  have fr: "users (rec v) = users (rec ev)" "items (rec v) = items (rec ev)"
      "n_item (rec v) = n_item (rec ev)" "n_user (rec v) = n_user (rec ev)"
      "can_repeat v = can_repeat ev" "is_feature_rec v = is_feature_rec ev"
      "log (rec v) = log (rec ev) @ recommend_calls (is_feature_rec ev) e (target_list c)"
    unfolding v by simp_all
  have p2: "can_repeat v = Some b" using fr(5) Cons.prems(2) by simp
  have p3: "\<forall>e\<in>set es. users (rec v) (index (user e)) \<noteq> None"
    using Cons.prems(3) fr(1) by simp
  have p4: "b \<longrightarrow> (\<forall>e\<in>set es. index (item e) \<in> c)"
    using Cons.prems(4) cA by simp
  from Cons.IH [OF Cons.prems(1) p2 p3 p4 fc] obtain ev1 ps acts where
        re: "batch_evaluate_loop R v c es = Inr (ev1, ps)"
    and lg: "log (rec ev1) = log (rec v) @ acts"
    and ln: "length ps = length es" "length (ranked_lists acts) = length es"
    and pc: "\<forall>k<length es. \<exists>pos<length (ranked_lists acts ! k).
                  ps ! k = percentile pos (length (ranked_lists acts ! k))"
    and fr1: "users (rec ev1) = users (rec v)" "items (rec ev1) = items (rec v)"
      "n_item (rec ev1) = n_item (rec v)" "n_user (rec ev1) = n_user (rec v)"
      "can_repeat ev1 = can_repeat v" "is_feature_rec ev1 = is_feature_rec v"
    by blast
  let ?acts = "recommend_calls (is_feature_rec ev) e (target_list c) @ acts"
  let ?ps = "percentile pos (length recos) # ps"
  have run: "batch_evaluate_loop R ev A (e # es) = Inr (ev1, ?ps)"
    by (simp add: c r k(1) re)
  have lg': "log (rec ev1) = log (rec ev) @ ?acts"
    using lg fr(7) by simp
  have rl: "ranked_lists ?acts = target_list c # ranked_lists acts"
    by (simp add: ranked_lists_append)
  have "\<forall>j<length (e # es). \<exists>pos<length (ranked_lists ?acts ! j).
          ?ps ! j = percentile pos (length (ranked_lists ?acts ! j))"
  proof (intro allI impI)
    fix j assume j: "j < length (e # es)"
    show "\<exists>pos<length (ranked_lists ?acts ! j). ?ps ! j = percentile pos (length (ranked_lists ?acts ! j))"
    proof (cases j)
      case 0
      then show ?thesis using k(2) lr by (auto simp: rl)
    next
      case (Suc j')
      then show ?thesis using pc j by (simp add: rl)
    qed
  qed
  with run lg' ln rl fr fr1 show ?case
    by (intro exI [of _ ev1] exI [of _ ?ps] exI [of _ ?acts]) simp
qed


lemma position_of_first:
  "i \<in> set xs \<Longrightarrow>
   position_of i xs < length xs \<and> xs ! position_of i xs = i \<and> (\<forall>j<position_of i xs. xs ! j \<noteq> i)"
proof (induction xs)
  case Nil
  then show ?case by simp
next
  case (Cons x xs)
  show ?case
  proof (cases "x = i")
    case True
    then show ?thesis by (simp add: position_of_def)
  next
    case False
    with Cons have ih: "position_of i xs < length xs" "xs ! position_of i xs = i"
        "\<forall>j<position_of i xs. xs ! j \<noteq> i"
      by auto
    have p: "position_of i (x # xs) = Suc (position_of i xs)"
      using False by (simp add: position_of_def)
    have "\<forall>j<Suc (position_of i xs). (x # xs) ! j \<noteq> i"
      using False ih(3) by (auto simp: less_Suc_eq_0_disj)
    with ih show ?thesis by (simp add: p)
  qed
qed







section \<open>Shuffling and determinism\<close>

lemma batch_update_loop_fst:
  "fst (batch_update_loop sh R n_epoch (epoch # epochs) ev train_events test_events) =
     (let train1 = (if n_epoch \<noteq> 1 then sh epoch train_events else train_events) in
      case batch_evaluate R (foldl (\<lambda>s e. update s e True) ev train1) test_events of
        Inl err \<Rightarrow> train1
      | Inr (ev2, mpr) \<Rightarrow> fst (batch_update_loop sh R n_epoch epochs ev2 train1 test_events))"
  by (auto simp: Let_def split: sum.splits prod.splits)

lemma batch_update_loop_no_shuffle:
  "batch_update_loop sh R 1 epochs ev train_events test_events =
     batch_update_loop sh1 R 1 epochs ev train_events test_events"
  by (induction epochs arbitrary: ev) (simp_all add: Let_def cong: sum.case_cong prod.case_cong)

lemma batch_update_loop_single_train:
  "fst (batch_update_loop sh R 1 epochs ev train_events test_events) = train_events"
proof (induction epochs arbitrary: ev)
  case Nil
  then show ?case by simp
next
  case (Cons epoch epochs)
  then show ?case
    unfolding batch_update_loop_fst by (simp split: sum.splits)
qed

lemma batch_update_loop_mset:
  "permuting sh \<Longrightarrow>
   mset (fst (batch_update_loop sh R n_epoch epochs ev train_events test_events)) = mset train_events"
proof (induction epochs arbitrary: ev train_events)
  case Nil
  then show ?case by simp
next
  case (Cons epoch epochs)
  let ?train1 = "if n_epoch \<noteq> 1 then sh epoch train_events else train_events"
  have m: "mset ?train1 = mset train_events"
    using Cons.prems by (simp add: permuting_def)
  have "mset (fst (batch_update_loop sh R n_epoch epochs ev2 ?train1 test_events)) = mset train_events"
    for ev2
    using Cons.IH [OF Cons.prems, of ev2 ?train1] m by simp
  note r = this
  show ?case
  proof (cases "batch_evaluate R (foldl (\<lambda>s e. update s e True) ev ?train1) test_events")
    case (Inl err)
    then show ?thesis
      by (simp only: batch_update_loop_fst Let_def sum.case m)
  next
    case (Inr p)
    then obtain ev2 mpr where "batch_evaluate R (foldl (\<lambda>s e. update s e True) ev ?train1) test_events
        = Inr (ev2, mpr)"
      by (cases p) simp
    then show ?thesis
      by (simp only: batch_update_loop_fst Let_def sum.case prod.case r)
  qed
qed

lemma batch_update_train_unchanged:
  "n_epoch \<le> 1 \<Longrightarrow> fst (batch_update sh R ev train_events test_events n_epoch) = train_events"
proof (cases "n_epoch = 1")
  case True
  then show ?thesis
    unfolding batch_update_def by (simp only: batch_update_loop_single_train)
next
  case False
  assume "n_epoch \<le> 1"
  with False have "nat n_epoch = 0" by simp
  then show ?thesis by (simp add: batch_update_def)
qed

lemma fit_train:
  "\<exists>ev3. fst (fit sh R ev train_events test_events n_epoch)
          = fst (batch_update sh R ev3 train_events test_events n_epoch)"
proof -
  obtain ev2 where b: "for_each bootstrap_event train_events (ev\<lparr>rec := init_model (rec ev)\<rparr>) = Inr ev2"
    using for_each_bootstrap_ok by blast
  obtain t res where u: "batch_update sh R (foldl validate ev2 test_events) train_events test_events n_epoch
      = (t, res)"
    by (cases "batch_update sh R (foldl validate ev2 test_events) train_events test_events n_epoch")
  have "fst (fit sh R ev train_events test_events n_epoch) = t"
    by (simp add: fit_def Let_def b u split: sum.splits)
  with u show ?thesis
    by (metis fst_conv)
qed

lemma permuting_reversing_shuffle: "permuting reversing_shuffle"
  by (simp add: permuting_def reversing_shuffle_def)

lemma batch_update_loop_store_fst:
  "fst (batch_update_loop_store sh R n_epoch (epoch # epochs) ev h tr te) =
     (let h1 = (if n_epoch \<noteq> 1 then h(tr := sh epoch (h tr)) else h) in
      case batch_evaluate R (foldl (\<lambda>s e. update s e True) ev (h1 tr)) (h1 te) of
        Inl err \<Rightarrow> h1
      | Inr (ev2, mpr) \<Rightarrow> fst (batch_update_loop_store sh R n_epoch epochs ev2 h1 tr te))"
  by (auto simp: Let_def split: sum.splits prod.splits)

lemma batch_update_loop_store_frame:
  "a \<noteq> tr \<Longrightarrow> fst (batch_update_loop_store sh R n_epoch epochs ev h tr te) a = h a"
proof (induction epochs arbitrary: ev h)
  case Nil
  then show ?case by simp
next
  case (Cons epoch epochs)
  define h1 where "h1 = (if n_epoch \<noteq> 1 then h(tr := sh epoch (h tr)) else h)"
  have h1: "h1 a = h a"
    using Cons.prems by (simp add: h1_def)
  have r: "fst (batch_update_loop_store sh R n_epoch epochs ev2 h1 tr te) a = h a" for ev2
    using Cons.IH [OF Cons.prems, of ev2 h1] h1 by simp
  show ?case
  proof (cases "batch_evaluate R (foldl (\<lambda>s e. update s e True) ev (h1 tr)) (h1 te)")
    case (Inl err)
    then show ?thesis
      unfolding batch_update_loop_store_fst Let_def h1_def [symmetric] using h1 by simp
  next
    case (Inr p)
    then obtain ev2 mpr where
      "batch_evaluate R (foldl (\<lambda>s e. update s e True) ev (h1 tr)) (h1 te) = Inr (ev2, mpr)"
      by (cases p) simp
    then show ?thesis
      unfolding batch_update_loop_store_fst Let_def h1_def [symmetric] using r by simp
  qed
qed

lemma batch_update_loop_store_single:
  "fst (batch_update_loop_store sh R 1 epochs ev h tr te) = h"
proof (induction epochs arbitrary: ev)
  case Nil
  then show ?case by simp
next
  case (Cons epoch epochs)
  then show ?case
    unfolding batch_update_loop_store_fst by (simp split: sum.splits)
qed

lemma batch_update_loop_store_mset:
  "permuting sh \<Longrightarrow>
   mset (fst (batch_update_loop_store sh R n_epoch epochs ev h tr te) tr) = mset (h tr)"
proof (induction epochs arbitrary: ev h)
  case Nil
  then show ?case by simp
next
  case (Cons epoch epochs)
  define h1 where "h1 = (if n_epoch \<noteq> 1 then h(tr := sh epoch (h tr)) else h)"
  have m: "mset (h1 tr) = mset (h tr)"
    using Cons.prems by (simp add: h1_def permuting_def)
  have r: "mset (fst (batch_update_loop_store sh R n_epoch epochs ev2 h1 tr te) tr) = mset (h tr)"
    for ev2
    using Cons.IH [OF Cons.prems, of ev2 h1] m by simp
  show ?case
  proof (cases "batch_evaluate R (foldl (\<lambda>s e. update s e True) ev (h1 tr)) (h1 te)")
    case (Inl err)
    then show ?thesis
      unfolding batch_update_loop_store_fst Let_def h1_def [symmetric] using m by simp
  next
    case (Inr p)
    then obtain ev2 mpr where
      "batch_evaluate R (foldl (\<lambda>s e. update s e True) ev (h1 tr)) (h1 te) = Inr (ev2, mpr)"
      by (cases p) simp
    then show ?thesis
      unfolding batch_update_loop_store_fst Let_def h1_def [symmetric] using r by simp
  qed
qed

lemma batch_update_loop_store_distinct:
  "tr \<noteq> te \<Longrightarrow>
   batch_update_loop_store sh R n_epoch epochs ev h tr te =
     (h(tr := fst (batch_update_loop sh R n_epoch epochs ev (h tr) (h te))),
      snd (batch_update_loop sh R n_epoch epochs ev (h tr) (h te)))"
proof (induction epochs arbitrary: ev h)
  case Nil
  then show ?case by simp
next
  case (Cons epoch epochs)
  define t1 where "t1 = (if n_epoch \<noteq> 1 then sh epoch (h tr) else h tr)"
  define h1 where "h1 = (if n_epoch \<noteq> 1 then h(tr := sh epoch (h tr)) else h)"
  have h1: "h1 tr = t1" "h1 te = h te" "h1 = h(tr := t1)"
    using Cons.prems by (auto simp: h1_def t1_def)
  define v where "v = foldl (\<lambda>s e. update s e True) ev t1"
  have st: "batch_update_loop_store sh R n_epoch (epoch # epochs) ev h tr te =
      (case batch_evaluate R v (h te) of
           Inl err \<Rightarrow> (h1, Inl err)
         | Inr (ev2, MPR) \<Rightarrow>
             (case batch_update_loop_store sh R n_epoch epochs ev2 h1 tr te of
                (h2, Inl err) \<Rightarrow> (h2, Inl err)
              | (h2, Inr (ev3, mprs)) \<Rightarrow> (h2, Inr (ev3, MPR # mprs))))"
    unfolding v_def h1(1,2) [symmetric] h1_def by (simp add: Let_def split del: if_split)
  have vl: "batch_update_loop sh R n_epoch (epoch # epochs) ev (h tr) (h te) =
      (case batch_evaluate R v (h te) of
           Inl err \<Rightarrow> (t1, Inl err)
         | Inr (ev2, MPR) \<Rightarrow>
             (case batch_update_loop sh R n_epoch epochs ev2 t1 (h te) of
                (train2, Inl err) \<Rightarrow> (train2, Inl err)
              | (train2, Inr (ev3, mprs)) \<Rightarrow> (train2, Inr (ev3, MPR # mprs))))"
    unfolding v_def t1_def by (simp add: Let_def split del: if_split)
  show ?case
  proof (cases "batch_evaluate R v (h te)")
    case (Inl err)
    then show ?thesis
      by (simp only: st vl sum.case fst_conv snd_conv h1(3))
  next
    case (Inr p)
    then obtain ev2 mpr where b: "batch_evaluate R v (h te) = Inr (ev2, mpr)"
      by (cases p) simp
    obtain t2 res where l: "batch_update_loop sh R n_epoch epochs ev2 t1 (h te) = (t2, res)"
      by (cases "batch_update_loop sh R n_epoch epochs ev2 t1 (h te)")
    have "batch_update_loop_store sh R n_epoch epochs ev2 h1 tr te = (h1(tr := t2), res)"
      using Cons.IH [OF Cons.prems, of ev2 h1] l by (auto simp: h1(1,2) fun_upd_def)
    then have s: "batch_update_loop_store sh R n_epoch epochs ev2 h1 tr te = (h(tr := t2), res)"
      by (simp add: h1(3))
    have st2: "batch_update_loop_store sh R n_epoch (epoch # epochs) ev h tr te =
        (case res of Inl err \<Rightarrow> (h(tr := t2), Inl err)
         | Inr (ev3, mprs) \<Rightarrow> (h(tr := t2), Inr (ev3, mpr # mprs)))"
      by (simp only: st b s sum.case prod.case)
    have vl2: "batch_update_loop sh R n_epoch (epoch # epochs) ev (h tr) (h te) =
        (case res of Inl err \<Rightarrow> (t2, Inl err)
         | Inr (ev3, mprs) \<Rightarrow> (t2, Inr (ev3, mpr # mprs)))"
      by (simp only: vl b l sum.case prod.case)
    show ?thesis
      unfolding st2 vl2 by (cases res) auto
  qed
qed


lemma fit_store_fst:
  "\<exists>ev3. fst (fit_store sh R ev h tr te n_epoch)
          = fst (batch_update_loop_store sh R n_epoch [0..<nat n_epoch] ev3 h tr te)"
proof -
  obtain ev2 where b: "for_each bootstrap_event (h tr) (ev\<lparr>rec := init_model (rec ev)\<rparr>) = Inr ev2"
    using for_each_bootstrap_ok by blast
  obtain h1 res where u:
    "batch_update_loop_store sh R n_epoch [0..<nat n_epoch] (foldl validate ev2 (h te)) h tr te = (h1, res)"
    by (cases "batch_update_loop_store sh R n_epoch [0..<nat n_epoch] (foldl validate ev2 (h te)) h tr te")
  have "fst (fit_store sh R ev h tr te n_epoch) = h1"
    by (simp add: fit_store_def Let_def b u split: sum.splits)
  with u show ?thesis
    by (metis fst_conv)
qed

lemma fit_store_distinct:
  assumes "tr \<noteq> te"
  shows "fit_store sh R ev h tr te n_epoch =
     (h(tr := fst (fit sh R ev (h tr) (h te) n_epoch)), snd (fit sh R ev (h tr) (h te) n_epoch))"
proof -
  obtain ev2 where b: "for_each bootstrap_event (h tr) (ev\<lparr>rec := init_model (rec ev)\<rparr>) = Inr ev2"
    using for_each_bootstrap_ok by blast
  define ev3 where "ev3 = foldl validate ev2 (h te)"
  obtain t res where l: "batch_update_loop sh R n_epoch [0..<nat n_epoch] ev3 (h tr) (h te) = (t, res)"
    by (cases "batch_update_loop sh R n_epoch [0..<nat n_epoch] ev3 (h tr) (h te)")
  have s: "batch_update_loop_store sh R n_epoch [0..<nat n_epoch] ev3 h tr te = (h(tr := t), res)"
    using batch_update_loop_store_distinct [OF assms, of sh R n_epoch "[0..<nat n_epoch]" ev3 h] l
    by simp
  have ht: "(h(tr := t)) te = h te"
    using assms by simp
  show ?thesis
  proof (cases res)
    case (Inl err)
    then show ?thesis
      by (simp add: fit_store_def fit_def batch_update_def Let_def b l s ev3_def [symmetric])
  next
    case (Inr q)
    obtain ev4 mprs where q: "q = (ev4, mprs)" by (cases q)
    have 1: "fit_store sh R ev h tr te n_epoch =
        (case for_each fold_in_event (h te) ev4 of
           Inl err \<Rightarrow> (h(tr := t), Inl err)
         | Inr ev5 \<Rightarrow> (h(tr := t), Inr ev5))"
      by (simp add: fit_store_def Let_def b s Inr q ev3_def [symmetric] del: fun_upd_apply)
         (simp only: ht)
    have 2: "fit sh R ev (h tr) (h te) n_epoch =
        (case for_each fold_in_event (h te) ev4 of
           Inl err \<Rightarrow> (t, Inl err)
         | Inr ev5 \<Rightarrow> (t, Inr ev5))"
      by (simp add: fit_def batch_update_def Let_def b l Inr q ev3_def [symmetric])
    show ?thesis
      unfolding 1 2 by (cases "for_each fold_in_event (h te) ev4") simp_all
  qed
qed

text \<open>
  Claim C9, amended. The caller's lists are objects in a store, \<^verbatim>\<open>train_events\<close> and
  \<^verbatim>\<open>test_events\<close> the places of two of them. With \<^verbatim>\<open>n_epoch\<close> at most 1, \<^verbatim>\<open>fit\<close>
  leaves every list as it is. For more epochs it shuffles the list at \<^verbatim>\<open>train_events\<close>
  in place once per epoch: afterwards that list holds the same events, each as often as
  before, in an order the random source decides, and every other list is as it was;
  so \<^verbatim>\<open>test_events\<close> is left unchanged when it is another list object than
  \<^verbatim>\<open>train_events\<close>. For two different objects \<^verbatim>\<open>fit\<close> on the store is \<open>fit\<close> on the
  contents of the two lists.
\<close>

theorem fit_store_lists:
  "(n_epoch \<le> 1 \<longrightarrow> fst (fit_store sh R ev h train_events test_events n_epoch) = h)
   \<and> (\<forall>a. a \<noteq> train_events \<longrightarrow>
          fst (fit_store sh R ev h train_events test_events n_epoch) a = h a)
   \<and> (permuting sh \<longrightarrow>
        mset (fst (fit_store sh R ev h train_events test_events n_epoch) train_events)
          = mset (h train_events))
   \<and> (train_events \<noteq> test_events \<longrightarrow>
        fit_store sh R ev h train_events test_events n_epoch =
          (h(train_events := fst (fit sh R ev (h train_events) (h test_events) n_epoch)),
           snd (fit sh R ev (h train_events) (h test_events) n_epoch)))"
proof (intro conjI impI allI)
  obtain ev3 where f: "fst (fit_store sh R ev h train_events test_events n_epoch)
      = fst (batch_update_loop_store sh R n_epoch [0..<nat n_epoch] ev3 h train_events test_events)"
    using fit_store_fst by blast
  {
    assume n: "n_epoch \<le> 1"
    show "fst (fit_store sh R ev h train_events test_events n_epoch) = h"
    proof (cases "n_epoch = 1")
      case True
      then show ?thesis
        unfolding f by (simp only: batch_update_loop_store_single)
    next
      case False
      with n have "nat n_epoch = 0" by simp
      then show ?thesis
        unfolding f by simp
    qed
  }
  {
    fix a :: nat assume "a \<noteq> train_events"
    then show "fst (fit_store sh R ev h train_events test_events n_epoch) a = h a"
      unfolding f by (rule batch_update_loop_store_frame)
  }
  {
    assume "permuting sh"
    then show "mset (fst (fit_store sh R ev h train_events test_events n_epoch) train_events)
          = mset (h train_events)"
      unfolding f by (rule batch_update_loop_store_mset)
  }
  {
    assume "train_events \<noteq> test_events"
    then show "fit_store sh R ev h train_events test_events n_epoch =
          (h(train_events := fst (fit sh R ev (h train_events) (h test_events) n_epoch)),
           snd (fit sh R ev (h train_events) (h test_events) n_epoch))"
      by (rule fit_store_distinct)
  }
qed

theorem fit_store_lists_witness:
  "(1::int) \<le> 1
   \<and> fst (fit_store reversing_shuffle identity_ranking
        (set_can_repeat False (new_evaluator empty_rec False)) example_store 0 1 1) = example_store
   \<and> (1::nat) \<noteq> 0
   \<and> fst (fit_store reversing_shuffle identity_ranking
        (set_can_repeat False (new_evaluator empty_rec False)) example_store 0 1 2) 1 = example_store 1
   \<and> permuting reversing_shuffle
   \<and> mset (fst (fit_store reversing_shuffle identity_ranking
        (set_can_repeat False (new_evaluator empty_rec False)) example_store 0 1 2) 0)
       = mset (example_store 0)
   \<and> (0::nat) \<noteq> 1
   \<and> fit_store reversing_shuffle identity_ranking
        (set_can_repeat False (new_evaluator empty_rec False)) example_store 0 1 2
       = (example_store(0 := fst (fit reversing_shuffle identity_ranking
            (set_can_repeat False (new_evaluator empty_rec False)) (example_store 0) (example_store 1) 2)),
          snd (fit reversing_shuffle identity_ranking
            (set_can_repeat False (new_evaluator empty_rec False)) (example_store 0) (example_store 1) 2))"
proof -
  let ?ev = "set_can_repeat False (new_evaluator empty_rec False)"
  note t1 = fit_store_lists [of 1 reversing_shuffle identity_ranking ?ev example_store 0 1]
  note t2 = fit_store_lists [of 2 reversing_shuffle identity_ranking ?ev example_store 0 1]
  have n: "(1::int) \<le> 1" by simp
  have a: "(1::nat) \<noteq> 0" by simp
  have d: "(0::nat) \<noteq> 1" by simp
  from t1 n have 1: "fst (fit_store reversing_shuffle identity_ranking ?ev example_store 0 1 1)
      = example_store"
    by blast
  from t2 a have 2: "fst (fit_store reversing_shuffle identity_ranking ?ev example_store 0 1 2) 1
      = example_store 1"
    by blast
  from t2 permuting_reversing_shuffle have 3:
    "mset (fst (fit_store reversing_shuffle identity_ranking ?ev example_store 0 1 2) 0)
       = mset (example_store 0)"
    by blast
  from t2 d have 4: "fit_store reversing_shuffle identity_ranking ?ev example_store 0 1 2
       = (example_store(0 := fst (fit reversing_shuffle identity_ranking ?ev
             (example_store 0) (example_store 1) 2)),
          snd (fit reversing_shuffle identity_ranking ?ev (example_store 0) (example_store 1) 2))"
    by blast
  show ?thesis
    by (intro conjI n 1 a 2 permuting_reversing_shuffle 3 d 4)
qed

text \<open>
  Claim C9 as stated, that \<^verbatim>\<open>fit\<close> leaves \<^verbatim>\<open>train_events\<close> and \<^verbatim>\<open>test_events\<close>
  unchanged for every \<^verbatim>\<open>n_epoch\<close>, fails for two epochs: with a random source that
  reverses the list in the first epoch, \<^verbatim>\<open>fit\<close> returns normally and the caller's list of
  two training events is reversed. When the caller passes one list as both arguments,
  that list, which is \<^verbatim>\<open>test_events\<close> too, is reversed.
\<close>

theorem fit_shuffles_train_events_in_place:
  "example_store 0 = [example_event 0 0, example_event 1 1]
   \<and> fst (fit_store reversing_shuffle identity_ranking
        (set_can_repeat False (new_evaluator empty_rec False)) example_store 0 1 2) 0
     = [example_event 1 1, example_event 0 0]
   \<and> fst (fit_store reversing_shuffle identity_ranking
        (set_can_repeat False (new_evaluator empty_rec False)) example_store 0 1 2) 0
     \<noteq> example_store 0
   \<and> \<not> isl (snd (fit_store reversing_shuffle identity_ranking
        (set_can_repeat False (new_evaluator empty_rec False)) example_store 0 1 2))
   \<and> fst (fit_store reversing_shuffle identity_ranking
        (set_can_repeat False (new_evaluator empty_rec False)) example_store 0 0 2) 0
     = [example_event 1 1, example_event 0 0]
   \<and> \<not> isl (snd (fit_store reversing_shuffle identity_ranking
        (set_can_repeat False (new_evaluator empty_rec False)) example_store 0 0 2))"
  by code_simp

text \<open>
  Claim C7. With \<^verbatim>\<open>n_epoch = 1\<close>, \<^verbatim>\<open>batch_update\<close> leaves \<^verbatim>\<open>train_events\<close> as it is,
  applies the batch update to its events in the order supplied (the history grows by
  their update calls, in that order) and evaluates once. The random source is not
  consulted: \<^verbatim>\<open>fit\<close> gives the same result for any two random sources, hence so does the
  sequence of (top-1 score, rank) pairs of an \<^verbatim>\<open>evaluate\<close> that follows. The
  recommender is deterministic: its ranking is a function of its state.
\<close>

theorem single_epoch_is_deterministic:
  "batch_update sh R ev train_events test_events 1 =
     (train_events,
      case batch_evaluate R (foldl (\<lambda>s e. update s e True) ev train_events) test_events of
        Inl err \<Rightarrow> Inl err
      | Inr (ev2, mpr) \<Rightarrow> Inr (ev2, [mpr]))
   \<and> log (rec (foldl (\<lambda>s e. update s e True) ev train_events))
       = log (rec ev) @ concat (map (\<lambda>e. update_calls (is_feature_rec ev) e True) train_events)
   \<and> fit sh R ev train_events test_events 1 = fit sh1 R ev train_events test_events 1
   \<and> (case snd (fit sh R ev train_events test_events 1) of
         Inl err \<Rightarrow> Inl err
       | Inr ev1 \<Rightarrow> map_sum id snd (evaluate R ev1 es))
     = (case snd (fit sh1 R ev train_events test_events 1) of
         Inl err \<Rightarrow> Inl err
       | Inr ev1 \<Rightarrow> map_sum id snd (evaluate R ev1 es))"
proof (intro conjI)
  show "batch_update sh R ev train_events test_events 1 =
     (train_events,
      case batch_evaluate R (foldl (\<lambda>s e. update s e True) ev train_events) test_events of
        Inl err \<Rightarrow> Inl err
      | Inr (ev2, mpr) \<Rightarrow> Inr (ev2, [mpr]))"
    by (simp add: batch_update_def split: sum.splits)
  show "log (rec (foldl (\<lambda>s e. update s e True) ev train_events))
       = log (rec ev) @ concat (map (\<lambda>e. update_calls (is_feature_rec ev) e True) train_events)"
    by (induction train_events arbitrary: ev) simp_all
  have b: "batch_update sh R ev3 train_events test_events 1 = batch_update sh1 R ev3 train_events test_events 1"
    for ev3
    unfolding batch_update_def by (rule batch_update_loop_no_shuffle)
  show f: "fit sh R ev train_events test_events 1 = fit sh1 R ev train_events test_events 1"
    by (simp add: fit_def b Let_def cong: sum.case_cong)
  show "(case snd (fit sh R ev train_events test_events 1) of
         Inl err \<Rightarrow> Inl err
       | Inr ev1 \<Rightarrow> map_sum id snd (evaluate R ev1 es))
     = (case snd (fit sh1 R ev train_events test_events 1) of
         Inl err \<Rightarrow> Inl err
       | Inr ev1 \<Rightarrow> map_sum id snd (evaluate R ev1 es))"
    by (simp add: f)
qed

section \<open>The phases of fit\<close>

lemma validate_calls_registration:
  "validate_calls ev e = registration (is_feature_rec ev) (dom (users (rec ev))) (items (rec ev)) e"
  by (auto simp: validate_calls_def registration_def is_new_user_def is_new_item_def)

lemma validate_dom: "dom (users (rec (validate ev e))) = insert (index (user e)) (dom (users (rec ev)))"
  by (auto simp: validate_users is_new_user_def)



lemma foldl_validate_history:
  "log (rec (foldl validate ev es)) = log (rec ev)
     @ preregistration_history (is_feature_rec ev) (dom (users (rec ev))) (items (rec ev)) es
   \<and> dom (users (rec (foldl validate ev es))) = dom (users (rec ev)) \<union> user_indices es
   \<and> items (rec (foldl validate ev es)) = items (rec ev) \<union> item_indices es"
proof (induction es arbitrary: ev)
  case Nil
  then show ?case by (simp add: user_indices_def item_indices_def)
next
  case (Cons e es)
  from Cons.IH [of "validate ev e"] show ?case
    by (simp add: validate_log validate_calls_registration validate_dom validate_items
        user_indices_def item_indices_def)
qed

lemma fold_in_event_ok:
  assumes "index (user e) \<in> dom (users (rec ev))"
  shows "\<exists>ev1. fold_in_event ev e = Inr ev1
           \<and> log (rec ev1) = log (rec ev)
                @ ObservedAdd (index (user e)) (index (item e)) # update_calls (is_feature_rec ev) e False
           \<and> dom (users (rec ev1)) = dom (users (rec ev))
           \<and> is_feature_rec ev1 = is_feature_rec ev"
proof -
  from assms obtain v where o: "observed_add (index (user e)) (index (item e)) ev = Inr v"
    using observed_add_ok [of ev "index (user e)"] by auto
  from observed_add_InrD(1) [OF o] obtain obs where
    u: "users (rec ev) (index (user e)) = Some obs"
       "users (rec v) = (users (rec ev))(index (user e) \<mapsto> insert (index (item e)) obs)"
    by blast
  have "dom (users (rec v)) = dom (users (rec ev))"
    using u by auto
  then show ?thesis
    using o observed_add_InrD(2) [OF o] observed_add_frame(2) [OF o]
    by (simp add: fold_in_event_def)
qed

lemma for_each_fold_in_ok:
  assumes "user_indices es \<subseteq> dom (users (rec ev))"
  shows "\<exists>ev1. for_each fold_in_event es ev = Inr ev1
           \<and> log (rec ev1) = log (rec ev) @ fold_in_history (is_feature_rec ev) es"
  using assms
proof (induction es arbitrary: ev)
  case Nil
  then show ?case by (simp add: fold_in_history_def)
next
  case (Cons e es)
  have "index (user e) \<in> dom (users (rec ev))"
    using Cons.prems by (auto simp: user_indices_def)
  from fold_in_event_ok [OF this] obtain v where
        f: "fold_in_event ev e = Inr v"
    and l: "log (rec v) = log (rec ev)
                @ ObservedAdd (index (user e)) (index (item e)) # update_calls (is_feature_rec ev) e False"
    and d: "dom (users (rec v)) = dom (users (rec ev))"
    and fr: "is_feature_rec v = is_feature_rec ev"
    by blast
  have "user_indices es \<subseteq> dom (users (rec v))"
    using Cons.prems d by (auto simp: user_indices_def)
  from Cons.IH [OF this] obtain ev1 where
    "for_each fold_in_event es v = Inr ev1"
    "log (rec ev1) = log (rec v) @ fold_in_history (is_feature_rec v) es"
    by blast
  then show ?case
    using f l fr by (simp add: fold_in_history_def)
qed


lemma batch_evaluate_loop_frame:
  assumes "batch_evaluate_loop R ev A es = Inr (ev1, ps)"
  shows "users (rec ev1) = users (rec ev) \<and> items (rec ev1) = items (rec ev)
         \<and> n_item (rec ev1) = n_item (rec ev) \<and> n_user (rec ev1) = n_user (rec ev)
         \<and> can_repeat ev1 = can_repeat ev \<and> is_feature_rec ev1 = is_feature_rec ev"
  using assms
proof (induction es arbitrary: ev A ps)
  case Nil
  then show ?case by simp
next
  case (Cons e es)
  from Cons.prems obtain c where c: "candidates ev e A = Inr c"
    by (auto split: sum.splits)
  obtain v recos scores where r: "recommend R ev e (target_list c) = (v, recos, scores)"
    by (cases "recommend R ev e (target_list c)") auto
  from Cons.prems c r obtain ps1 where re: "batch_evaluate_loop R v c es = Inr (ev1, ps1)"
    by (auto split: sum.splits)
  have v: "v = fst (recommend R ev e (target_list c))" using r by simp
  have "users (rec v) = users (rec ev)" "items (rec v) = items (rec ev)"
      "n_item (rec v) = n_item (rec ev)" "n_user (rec v) = n_user (rec ev)"
      "can_repeat v = can_repeat ev" "is_feature_rec v = is_feature_rec ev"
    unfolding v by simp_all
  with Cons.IH [OF re] show ?case by simp
qed

lemma foldl_update_rec [simp]:
  "users (rec (foldl (\<lambda>s e. update s e b) ev es)) = users (rec ev)"
  "items (rec (foldl (\<lambda>s e. update s e b) ev es)) = items (rec ev)"
  "n_item (rec (foldl (\<lambda>s e. update s e b) ev es)) = n_item (rec ev)"
  "n_user (rec (foldl (\<lambda>s e. update s e b) ev es)) = n_user (rec ev)"
  by (induction es arbitrary: ev) simp_all

lemma batch_update_loop_frame:
  assumes "batch_update_loop sh R n_epoch epochs ev train_events test_events = (t, Inr (ev1, mprs))"
  shows "users (rec ev1) = users (rec ev) \<and> items (rec ev1) = items (rec ev)
         \<and> n_item (rec ev1) = n_item (rec ev) \<and> n_user (rec ev1) = n_user (rec ev)
         \<and> can_repeat ev1 = can_repeat ev \<and> is_feature_rec ev1 = is_feature_rec ev"
  using assms
proof (induction epochs arbitrary: ev train_events mprs)
  case Nil
  then show ?case by simp
next
  case (Cons epoch epochs)
  let ?train1 = "if n_epoch \<noteq> 1 then sh epoch train_events else train_events"
  let ?ev1 = "foldl (\<lambda>s e. update s e True) ev ?train1"
  from Cons.prems obtain ev2 mpr where be: "batch_evaluate R ?ev1 test_events = Inr (ev2, mpr)"
    by (auto simp: Let_def split: sum.splits)
  from Cons.prems be obtain mprs1 where
    re: "batch_update_loop sh R n_epoch epochs ev2 ?train1 test_events = (t, Inr (ev1, mprs1))"
    by (auto simp: Let_def split: sum.splits prod.splits)
  from be obtain ps where "batch_evaluate_loop R ?ev1 {0..<n_item (rec ?ev1)} test_events = Inr (ev2, ps)"
    by (auto simp: batch_evaluate_def split: sum.splits)
  from batch_evaluate_loop_frame [OF this] Cons.IH [OF re] show ?case
    by simp
qed

lemma observed_in_Nil [simp]: "observed_in [] u = {}"
  by (simp add: observed_in_def)




lemma item_indices_Cons: "item_indices (e # es) = insert (index (item e)) (item_indices es)"
  by (simp add: item_indices_def)
















lemma fit_example_observed:
  "map_sum id (\<lambda>ev5. (users (rec ev5) 0, users (rec ev5) 1, users (rec ev5) 2,
                        n_user (rec ev5), n_item (rec ev5)))
     (snd (fit no_shuffle identity_ranking (set_can_repeat False (new_evaluator empty_rec False))
        [example_event 0 0, example_event 1 1] [example_event 0 2] 1))
   = Inr (Some {0, 2}, Some {1}, None, 2, 3)"
  by code_simp

lemma fit_example_history:
  "map_sum id (\<lambda>ev5. log (rec ev5))
     (snd (fit no_shuffle identity_ranking (set_can_repeat False (new_evaluator empty_rec False))
        [example_event 0 0, example_event 1 1] [example_event 0 2] 1))
   = Inr [InitModel, InitModel,
          AddUser 0 None, AddItem 0 None, ObservedAdd 0 0,
          AddUser 1 None, AddItem 1 None, ObservedAdd 1 1,
          AddItem 2 None,
          Update 0 0 1 None True, Update 1 1 1 None True,
          Recommend 0 [1, 2] None,
          ObservedAdd 0 2, Update 0 2 1 None False]"
  by code_simp

section \<open>Empty inputs\<close>

lemma permuting_Nil: "permuting sh \<Longrightarrow> sh epoch [] = []"
  by (metis mset_zero_iff permuting_def)

lemma batch_evaluate_Nil: "batch_evaluate R ev [] = Inr (ev, NaN)"
  by (simp add: batch_evaluate_def np_mean_def)

lemma batch_update_loop_no_events:
  "permuting sh \<Longrightarrow>
   batch_update_loop sh R n_epoch epochs ev [] [] = ([], Inr (ev, map (\<lambda>_. NaN) epochs))"
proof (induction epochs)
  case Nil
  then show ?case by simp
next
  case (Cons epoch epochs)
  have t: "(if n_epoch \<noteq> 1 then sh epoch [] else []) = []"
    using Cons.prems by (simp add: permuting_Nil)
  show ?case
    using Cons.IH [OF Cons.prems]
    by (simp only: batch_update_loop.simps Let_def t foldl_Nil batch_evaluate_Nil
        sum.case prod.case list.map)
qed

lemma batch_update_loop_ok:
  assumes "well_behaved R" and "can_repeat ev = Some b"
    and "\<forall>e\<in>set test_events. users (rec ev) (index (user e)) \<noteq> None"
    and "b \<longrightarrow> (\<forall>e\<in>set test_events. index (item e) < n_item (rec ev))"
  shows "\<exists>t ev1 mprs. batch_update_loop sh R n_epoch epochs ev train_events test_events
           = (t, Inr (ev1, mprs))"
  using assms
proof (induction epochs arbitrary: ev train_events)
  case Nil
  then show ?case by simp
next
  case (Cons epoch epochs)
  define train1 where "train1 = (if n_epoch \<noteq> 1 then sh epoch train_events else train_events)"
  define v where "v = foldl (\<lambda>s e. update s e True) ev train1"
  have p2: "can_repeat v = Some b"
    using Cons.prems(2) by (simp add: v_def)
  have p3: "\<forall>e\<in>set test_events. users (rec v) (index (user e)) \<noteq> None"
    using Cons.prems(3) by (simp add: v_def)
  have p4: "b \<longrightarrow> (\<forall>e\<in>set test_events. index (item e) \<in> {0..<n_item (rec v)})"
    using Cons.prems(4) by (simp add: v_def)
  from batch_evaluate_loop_run [OF Cons.prems(1) p2 p3 p4] obtain ev2 ps where
        run: "batch_evaluate_loop R v {0..<n_item (rec v)} test_events = Inr (ev2, ps)"
    and fr: "users (rec ev2) = users (rec v)" "n_item (rec ev2) = n_item (rec v)"
            "can_repeat ev2 = can_repeat v"
    by auto
  have be: "batch_evaluate R v test_events = Inr (ev2, np_mean ps)"
    by (simp add: batch_evaluate_def run)
  have q2: "can_repeat ev2 = Some b" using fr(3) p2 by simp
  have q3: "\<forall>e\<in>set test_events. users (rec ev2) (index (user e)) \<noteq> None"
    using p3 fr(1) by simp
  have q4: "b \<longrightarrow> (\<forall>e\<in>set test_events. index (item e) < n_item (rec ev2))"
    using p4 fr(2) by simp
  from Cons.IH [OF Cons.prems(1) q2 q3 q4, of train1] obtain t ev1 mprs where
    "batch_update_loop sh R n_epoch epochs ev2 train1 test_events = (t, Inr (ev1, mprs))"
    by blast
  then have "batch_update_loop sh R n_epoch (epoch # epochs) ev train_events test_events
      = (t, Inr (ev1, np_mean ps # mprs))"
    using be unfolding v_def train1_def by (simp add: Let_def split del: if_split)
  then show ?case by blast
qed

lemma validate_counts:
  assumes "finite (items (rec ev))" "n_item (rec ev) = card (items (rec ev))"
  shows "finite (items (rec (validate ev e)))"
    and "n_item (rec (validate ev e)) = card (items (rec (validate ev e)))"
  using assms by (simp_all add: validate_items is_new_item_def card_insert_if)

lemma foldl_validate_counts:
  assumes "finite (items (rec ev))" "n_item (rec ev) = card (items (rec ev))"
  shows "n_item (rec (foldl validate ev es)) = card (items (rec (foldl validate ev es)))"
  using assms
proof (induction es arbitrary: ev)
  case Nil
  then show ?case by simp
next
  case (Cons e es)
  from Cons.IH [OF validate_counts [OF Cons.prems]] show ?case by simp
qed

lemma validate_unobserved:
  assumes "ran (users (rec ev)) \<subseteq> {{}}"
  shows "ran (users (rec (validate ev e))) \<subseteq> {{}}"
proof (cases "is_new_user (rec ev) (index (user e))")
  case True
  then have "users (rec ev) (index (user e)) = None"
    by (simp add: is_new_user_def)
  then have "ran ((users (rec ev))(index (user e) \<mapsto> {})) = insert {} (ran (users (rec ev)))"
    by simp
  with assms True show ?thesis by (simp add: validate_users)
next
  case False
  with assms show ?thesis by (simp add: validate_users)
qed

lemma foldl_validate_unobserved:
  assumes "ran (users (rec ev)) \<subseteq> {{}}"
  shows "ran (users (rec (foldl validate ev es))) \<subseteq> {{}}"
  using assms
proof (induction es arbitrary: ev)
  case Nil
  then show ?case by simp
next
  case (Cons e es)
  from Cons.IH [OF validate_unobserved [OF Cons.prems]] show ?case by simp
qed


text \<open>
  Claim C8, amended. \<^verbatim>\<open>evaluate\<close> on no events yields nothing and leaves the evaluator
  as it is. \<^verbatim>\<open>fit\<close> on no events returns normally; it resets the model and does nothing
  else. With no training events and a test set, \<^verbatim>\<open>fit\<close> returns normally when
  \<^verbatim>\<open>can_repeat\<close> has been set, the recommender keeps its contract and, when repetition is
  allowed, the item indices of the test events are dense: after the pre-registration
  pass every test user is registered with an empty observed set and every test item is
  registered, the batch phase leaves the observed sets as they are, and the fold-in pass
  completes.
\<close>

theorem zero_events_are_handled:
  "evaluate R ev [] = Inr (ev, [])
   \<and> (permuting sh \<longrightarrow>
        (\<exists>ev1. fit sh R ev [] [] n_epoch = ([], Inr ev1)
           \<and> users (rec ev1) = Map.empty \<and> items (rec ev1) = {}
           \<and> new_actions ev ev1 = [InitModel]))
   \<and> (permuting sh \<and> well_behaved R \<and> can_repeat ev = Some b
        \<and> (b \<longrightarrow> item_indices test_events = {0..<card (item_indices test_events)}) \<longrightarrow>
        (\<exists>ev3 ev4 mprs ev5.
            ev3 = foldl validate (ev\<lparr>rec := init_model (rec ev)\<rparr>) test_events
          \<and> (\<forall>e\<in>set test_events. users (rec ev3) (index (user e)) = Some {}
                 \<and> index (item e) \<in> items (rec ev3))
          \<and> batch_update sh R ev3 [] test_events n_epoch = ([], Inr (ev4, mprs))
          \<and> users (rec ev4) = users (rec ev3)
          \<and> for_each fold_in_event test_events ev4 = Inr ev5
          \<and> fit sh R ev [] test_events n_epoch = ([], Inr ev5)))"
proof (intro conjI impI)
  show "evaluate R ev [] = Inr (ev, [])" by simp
next
  assume p: "permuting sh"
  let ?ev1 = "ev\<lparr>rec := init_model (rec ev)\<rparr>"
  have "fit sh R ev [] [] n_epoch = ([], Inr ?ev1)"
    by (simp add: fit_def batch_update_def batch_update_loop_no_events [OF p])
  moreover have "users (rec ?ev1) = Map.empty" "items (rec ?ev1) = {}"
      "new_actions ev ?ev1 = [InitModel]"
    by (simp_all add: init_model_def new_actions_def)
  ultimately show "\<exists>ev1. fit sh R ev [] [] n_epoch = ([], Inr ev1)
           \<and> users (rec ev1) = Map.empty \<and> items (rec ev1) = {}
           \<and> new_actions ev ev1 = [InitModel]"
    by blast
next
  assume h: "permuting sh \<and> well_behaved R \<and> can_repeat ev = Some b
        \<and> (b \<longrightarrow> item_indices test_events = {0..<card (item_indices test_events)})"
  define ev1 where "ev1 = ev\<lparr>rec := init_model (rec ev)\<rparr>"
  define ev3 where "ev3 = foldl validate ev1 test_events"
  have i: "users (rec ev1) = Map.empty" "items (rec ev1) = {}" "n_item (rec ev1) = 0"
      "can_repeat ev1 = Some b"
    using h by (simp_all add: ev1_def init_model_def)
  have dm: "dom (users (rec ev3)) = user_indices test_events"
    and it: "items (rec ev3) = item_indices test_events"
    using foldl_validate_history [of ev1 test_events] by (simp_all add: ev3_def i)
  have rn: "ran (users (rec ev3)) \<subseteq> {{}}"
    unfolding ev3_def by (rule foldl_validate_unobserved) (simp add: i)
  have ni: "n_item (rec ev3) = card (item_indices test_events)"
    using foldl_validate_counts [of ev1 test_events] it by (simp add: ev3_def i)
  have cr: "can_repeat ev3 = Some b"
    by (simp add: ev3_def i)
  have reg: "users (rec ev3) (index (user e)) = Some {} \<and> index (item e) \<in> items (rec ev3)"
    if e: "e \<in> set test_events" for e
  proof -
    have "index (user e) \<in> dom (users (rec ev3))"
      using e by (simp add: dm user_indices_def)
    then obtain obs where o: "users (rec ev3) (index (user e)) = Some obs"
      by auto
    then have "obs \<in> ran (users (rec ev3))"
      by (auto simp: ran_def)
    with rn have "obs = {}" by auto
    moreover have "index (item e) \<in> items (rec ev3)"
      using e by (simp add: it item_indices_def)
    ultimately show ?thesis using o by simp
  qed
  have p3: "\<forall>e\<in>set test_events. users (rec ev3) (index (user e)) \<noteq> None"
    using reg by simp
  have p4: "b \<longrightarrow> (\<forall>e\<in>set test_events. index (item e) < n_item (rec ev3))"
  proof (intro impI ballI)
    fix e assume b and e: "e \<in> set test_events"
    with h have d: "item_indices test_events = {0..<card (item_indices test_events)}"
      by simp
    have "index (item e) \<in> item_indices test_events"
      using e by (simp add: item_indices_def)
    with d have "index (item e) \<in> {0..<card (item_indices test_events)}"
      by simp
    then show "index (item e) < n_item (rec ev3)"
      by (simp add: ni)
  qed
  from h have wb: "well_behaved R" and pm: "permuting sh"
    by simp_all
  from batch_update_loop_ok [OF wb cr p3 p4, of sh n_epoch "[0..<nat n_epoch]" "[]"]
  obtain t ev4 mprs where
    bl: "batch_update_loop sh R n_epoch [0..<nat n_epoch] ev3 [] test_events = (t, Inr (ev4, mprs))"
    by blast
  have "mset t = mset ([]::event list)"
    using batch_update_loop_mset [OF pm, of R n_epoch "[0..<nat n_epoch]" ev3 "[]" test_events] bl
    by simp
  then have t: "t = []" by simp
  have bu: "batch_update sh R ev3 [] test_events n_epoch = ([], Inr (ev4, mprs))"
    using bl t by (simp add: batch_update_def)
  have u4: "users (rec ev4) = users (rec ev3)"
    using batch_update_loop_frame [OF bl] by simp
  have "user_indices test_events \<subseteq> dom (users (rec ev4))"
    using dm u4 by simp
  from for_each_fold_in_ok [OF this] obtain ev5 where
    fi: "for_each fold_in_event test_events ev4 = Inr ev5"
    by blast
  have ft: "fit sh R ev [] test_events n_epoch = ([], Inr ev5)"
    using bu fi by (simp add: fit_def Let_def ev3_def ev1_def)
  have e3: "ev3 = foldl validate (ev\<lparr>rec := init_model (rec ev)\<rparr>) test_events"
    by (simp add: ev3_def ev1_def)
  have rg: "\<forall>e\<in>set test_events. users (rec ev3) (index (user e)) = Some {}
                 \<and> index (item e) \<in> items (rec ev3)"
    using reg by blast
  show "\<exists>ev3 ev4 mprs ev5.
            ev3 = foldl validate (ev\<lparr>rec := init_model (rec ev)\<rparr>) test_events
          \<and> (\<forall>e\<in>set test_events. users (rec ev3) (index (user e)) = Some {}
                 \<and> index (item e) \<in> items (rec ev3))
          \<and> batch_update sh R ev3 [] test_events n_epoch = ([], Inr (ev4, mprs))
          \<and> users (rec ev4) = users (rec ev3)
          \<and> for_each fold_in_event test_events ev4 = Inr ev5
          \<and> fit sh R ev [] test_events n_epoch = ([], Inr ev5)"
    by (rule exI [of _ ev3], rule exI [of _ ev4], rule exI [of _ mprs], rule exI [of _ ev5])
       (intro conjI e3 rg bu u4 fi ft)
qed


theorem zero_events_are_handled_witness:
  "permuting reversing_shuffle \<and> well_behaved identity_ranking
   \<and> can_repeat (set_can_repeat True (new_evaluator empty_rec False)) = Some True
   \<and> item_indices [example_event 0 0, example_event 1 1]
       = {0..<card (item_indices [example_event 0 0, example_event 1 1])}
   \<and> evaluate identity_ranking (set_can_repeat True (new_evaluator empty_rec False)) []
       = Inr (set_can_repeat True (new_evaluator empty_rec False), [])
   \<and> (\<exists>ev1. fit reversing_shuffle identity_ranking (set_can_repeat True (new_evaluator empty_rec False))
               [] [] 1 = ([], Inr ev1)
          \<and> users (rec ev1) = Map.empty \<and> items (rec ev1) = {}
          \<and> new_actions (set_can_repeat True (new_evaluator empty_rec False)) ev1 = [InitModel])
   \<and> (\<exists>ev3 ev4 mprs ev5.
          ev3 = foldl validate
                  ((set_can_repeat True (new_evaluator empty_rec False))
                     \<lparr>rec := init_model (rec (set_can_repeat True (new_evaluator empty_rec False)))\<rparr>)
                  [example_event 0 0, example_event 1 1]
        \<and> (\<forall>e\<in>set [example_event 0 0, example_event 1 1].
               users (rec ev3) (index (user e)) = Some {} \<and> index (item e) \<in> items (rec ev3))
        \<and> batch_update reversing_shuffle identity_ranking ev3 []
             [example_event 0 0, example_event 1 1] 1 = ([], Inr (ev4, mprs))
        \<and> users (rec ev4) = users (rec ev3)
        \<and> for_each fold_in_event [example_event 0 0, example_event 1 1] ev4 = Inr ev5
        \<and> fit reversing_shuffle identity_ranking (set_can_repeat True (new_evaluator empty_rec False))
             [] [example_event 0 0, example_event 1 1] 1 = ([], Inr ev5))"
proof -
  let ?ev = "set_can_repeat True (new_evaluator empty_rec False)"
  let ?test = "[example_event 0 0, example_event 1 1]"
  have c: "can_repeat ?ev = Some True"
    by (simp add: set_can_repeat_def)
  have d: "item_indices ?test = {0..<card (item_indices ?test)}"
    by code_simp
  have h: "permuting reversing_shuffle \<and> well_behaved identity_ranking \<and> can_repeat ?ev = Some True
        \<and> (True \<longrightarrow> item_indices ?test = {0..<card (item_indices ?test)})"
    using permuting_reversing_shuffle well_behaved_identity_ranking c d by simp
  note t = zero_events_are_handled [of identity_ranking ?ev reversing_shuffle 1 True ?test]
  from t have 1: "evaluate identity_ranking ?ev [] = Inr (?ev, [])"
    by simp
  from t permuting_reversing_shuffle have 2:
    "\<exists>ev1. fit reversing_shuffle identity_ranking ?ev [] [] 1 = ([], Inr ev1)
          \<and> users (rec ev1) = Map.empty \<and> items (rec ev1) = {}
          \<and> new_actions ?ev ev1 = [InitModel]"
    by blast
  from t h have 3:
    "\<exists>ev3 ev4 mprs ev5.
          ev3 = foldl validate (?ev\<lparr>rec := init_model (rec ?ev)\<rparr>) ?test
        \<and> (\<forall>e\<in>set ?test. users (rec ev3) (index (user e)) = Some {} \<and> index (item e) \<in> items (rec ev3))
        \<and> batch_update reversing_shuffle identity_ranking ev3 [] ?test 1 = ([], Inr (ev4, mprs))
        \<and> users (rec ev4) = users (rec ev3)
        \<and> for_each fold_in_event ?test ev4 = Inr ev5
        \<and> fit reversing_shuffle identity_ranking ?ev [] ?test 1 = ([], Inr ev5)"
    by blast
  show ?thesis
    by (intro conjI permuting_reversing_shuffle well_behaved_identity_ranking c d 1 2 3)
qed

text \<open>
  Claim C8 as stated fails in four ways. \<^verbatim>\<open>fit\<close> on no events is not a no-op: on an
  evaluator with two users and three items it leaves none registered. With no training
  events and one test event, \<^verbatim>\<open>fit\<close> ends in an \<^verbatim>\<open>AttributeError\<close> when \<^verbatim>\<open>can_repeat\<close>
  was never set, in an \<^verbatim>\<open>IndexError\<close> when repetition is allowed and the only test item
  has index 5, which \<^verbatim>\<open>range(n_item)\<close> does not contain, and in an \<^verbatim>\<open>IndexError\<close> when
  the ranking returned does not hold the true item.
\<close>

theorem fit_on_no_events_resets_and_may_fail:
  "users (rec (example_evaluator False)) 0 = Some {0}
   \<and> map_sum id (\<lambda>ev1. users (rec ev1) 0)
        (snd (fit no_shuffle identity_ranking (example_evaluator False) [] [] 1)) = Inr None
   \<and> map_sum id (\<lambda>ev1. (n_user (rec ev1), n_item (rec ev1)))
        (snd (fit no_shuffle identity_ranking (example_evaluator False) [] [] 1)) = Inr (0, 0)
   \<and> map_sum id (\<lambda>ev1. ())
        (snd (fit no_shuffle identity_ranking (new_evaluator empty_rec False) [] [example_event 0 0] 1))
       = Inl AttributeError
   \<and> map_sum id (\<lambda>ev1. ())
        (snd (fit no_shuffle identity_ranking (set_can_repeat True (new_evaluator empty_rec False))
           [] [example_event 0 5] 1))
       = Inl IndexError
   \<and> map_sum id (\<lambda>ev1. ())
        (snd (fit no_shuffle empty_ranking (set_can_repeat False (new_evaluator empty_rec False))
           [] [example_event 0 0] 1))
       = Inl IndexError"
  by code_simp

end
